theory Spec2Isabelle
  imports Main "HOL-Library.Word"
begin

section \<open>Threaded echo server (server.c): data model\<close>

text \<open>
  The model follows \<^verbatim>\<open>server.c\<close> on an LP64 platform: \<^verbatim>\<open>unsigned char\<close> is
  \<open>8 word\<close>, \<^verbatim>\<open>int\<close> is \<open>32 word\<close> read with \<open>sint\<close>, \<^verbatim>\<open>size_t\<close> and
  \<^verbatim>\<open>ssize_t\<close> are \<open>64 word\<close> (read with \<open>unat\<close> and \<open>sint\<close>). A buffer is the list
  of its bytes.
\<close>

type_synonym byte = "8 word"
type_synonym c_int = "32 word"
type_synonym size_t = "64 word"
type_synonym ssize_t = "64 word"

subsection \<open>to\_uppercase\<close>

text \<open>
  Modelled from the spec: \<^verbatim>\<open>toupper\<close> of the C library (\<^verbatim>\<open><ctype.h>\<close>, not part of
  the repository). The server never calls \<^verbatim>\<open>setlocale\<close>, so the "C" locale is in
  force: the letters \<^verbatim>\<open>'a'\<close>..\<^verbatim>\<open>'z'\<close> (97..122) map to \<^verbatim>\<open>'A'\<close>..\<^verbatim>\<open>'Z'\<close> (65..90), every
  other argument is returned as it is.
\<close>

definition toupper :: "int \<Rightarrow> int" where
  "toupper c = (if 97 \<le> c \<and> c \<le> 122 then c - 97 + 65 else c)"

text \<open>
  The loop body's right-hand side, \<^verbatim>\<open>(unsigned char)toupper((unsigned char)buf[i])\<close>:
  the byte is promoted to \<^verbatim>\<open>int\<close>, passed through \<^verbatim>\<open>toupper\<close>, and cast back.
\<close>

definition toupper_byte :: "byte \<Rightarrow> byte" where
  "toupper_byte b = word_of_int (toupper (uint b))"

text \<open>
  \<^verbatim>\<open>for (size_t i = 0; i < n; i++) buf[i] = ...\<close>. The index stays below \<open>n\<close>, so
  \<^verbatim>\<open>i++\<close> never wraps and \<open>i\<close>, \<open>n\<close> are natural numbers. Writing \<^verbatim>\<open>buf[i]\<close> beyond
  the buffer is undefined behaviour in C; the theorems below assume \<open>n \<le> length buf\<close>.
\<close>

function to_uppercase_loop :: "byte list \<Rightarrow> nat \<Rightarrow> nat \<Rightarrow> byte list" where
  "to_uppercase_loop buf n i =
     (if i < n then to_uppercase_loop (buf[i := toupper_byte (buf ! i)]) n (Suc i) else buf)"
  by pat_completeness auto
termination
  by (relation "measure (\<lambda>(buf, n, i). n - i)") auto

definition to_uppercase :: "byte list \<Rightarrow> nat \<Rightarrow> byte list" where
  "to_uppercase buf n = to_uppercase_loop buf n 0"

subsection \<open>System calls and the observable trace\<close>

text \<open>
  The kernel is the environment. Each call of \<^verbatim>\<open>recv\<close> or \<^verbatim>\<open>send\<close> consumes the next
  entry of a list of responses: the value returned (\<^verbatim>\<open>ssize_t\<close>), the value of
  \<^verbatim>\<open>errno\<close> after the call, and, for a \<^verbatim>\<open>recv\<close> that returns \<open>r > 0\<close>, the bytes
  the kernel stored in the buffer. When the list is exhausted the call blocks for ever
  and the function does not return (\<open>None\<close>).
\<close>

datatype sysret = Sysret (ret: ssize_t) (errno: int) (payload: "byte list")

text \<open>\<^verbatim>\<open>EINTR\<close> of \<^verbatim>\<open><errno.h>\<close> (4 on Linux); the code only compares with it.\<close>

definition EINTR :: int where
  "EINTR = 4"

definition BUF_SIZE :: size_t where
  "BUF_SIZE = 4096"

text \<open>
  Every statement with an effect outside the thread's locals appends one event:
  the calls on the mutex, the two statements that change \<^verbatim>\<open>g_connected_clients\<close>,
  the line printed to \<^verbatim>\<open>stderr\<close> with its value, each \<^verbatim>\<open>recv\<close> (descriptor, capacity,
  result), each \<^verbatim>\<open>send\<close> (descriptor, the bytes offered, result), \<^verbatim>\<open>perror\<close>,
  \<^verbatim>\<open>close\<close> and \<^verbatim>\<open>free\<close>.
\<close>

datatype event =
    Free_ctx
  | Mtx_lock
  | Mtx_unlock
  | Clients_incr
  | Clients_decr
  | Stderr_clients c_int
  | Recv c_int size_t ssize_t
  | Send c_int "byte list" ssize_t
  | Perror string
  | Close c_int

record world =
  g_connected_clients :: c_int
  trace :: "event list"

definition emit :: "event list \<Rightarrow> world \<Rightarrow> world" where
  "emit es w = w\<lparr>trace := trace w @ es\<rparr>"

text \<open>
  The bytes a \<^verbatim>\<open>send\<close> handed to the peer: on a positive result \<open>n\<close>, the first \<open>n\<close>
  of the bytes offered; nothing otherwise. \<open>wire\<close> is the byte stream a trace puts
  on the connection.
\<close>

fun transferred :: "event \<Rightarrow> byte list" where
  "transferred (Send fd bs n) = (if 0 < sint n then take (unat n) bs else [])"
| "transferred _ = []"

definition wire :: "event list \<Rightarrow> byte list" where
  "wire es = concat (map transferred es)"

subsection \<open>send\_all\<close>

text \<open>
  \<^verbatim>\<open>while (total < len) { n = send(fd, p + total, len - total, 0);
     if (n < 0) { if (errno == EINTR) continue; }
     if (n == 0) break;
     total += (size_t)n; }
   return (ssize_t)total;\<close>
  The variable \<^verbatim>\<open>total\<close> is \<open>tot\<close> here. A negative \<open>n\<close> with another \<^verbatim>\<open>errno\<close> falls through both tests, and
  \<^verbatim>\<open>total += (size_t)n\<close> adds its bit pattern.
\<close>

fun send_all_loop ::
  "c_int \<Rightarrow> byte list \<Rightarrow> size_t \<Rightarrow> size_t \<Rightarrow> sysret list \<Rightarrow> world
     \<Rightarrow> (ssize_t \<times> world \<times> sysret list) option" where
  "send_all_loop fd p len tot [] w =
     (if tot < len then None else Some (tot, w, []))"
| "send_all_loop fd p len tot (e # env) w =
     (if tot < len then
        (let n = ret e;
             w' = emit [Send fd (take (unat (len - tot)) (drop (unat tot) p)) n] w
         in if sint n < 0 \<and> errno e = EINTR then send_all_loop fd p len tot env w'
            else if n = 0 then Some (tot, w', env)
            else send_all_loop fd p len (tot + n) env w')
      else Some (tot, w, e # env))"

definition send_all ::
  "c_int \<Rightarrow> byte list \<Rightarrow> size_t \<Rightarrow> sysret list \<Rightarrow> world
     \<Rightarrow> (ssize_t \<times> world \<times> sysret list) option" where
  "send_all fd buf len env w = send_all_loop fd buf len 0 env w"

text \<open>
  The environment assumed by the claim about \<^verbatim>\<open>send_all\<close>, as a function of the
  responses. \<open>is_eintr\<close>: the call failed as interrupted. \<open>accepted len k rs\<close>: with
  \<open>k\<close> of \<open>len\<close> bytes written, every response of \<open>rs\<close> answers a call that is still
  due (\<open>k < len\<close>) and is either an interruption or a transfer of \<open>n\<close> bytes with
  \<open>1 \<le> n \<le> len - k\<close> (\<^verbatim>\<open>send\<close> never reports more than it was offered); the value is
  the number of bytes written after the last response.
\<close>

definition is_eintr :: "sysret \<Rightarrow> bool" where
  "is_eintr e = (sint (ret e) < 0 \<and> errno e = EINTR)"

fun accepted :: "nat \<Rightarrow> nat \<Rightarrow> sysret list \<Rightarrow> nat option" where
  "accepted len k [] = Some k"
| "accepted len k (e # rs) =
     (if len \<le> k then None
      else if is_eintr e then accepted len k rs
      else if 0 < sint (ret e) \<and> k + unat (ret e) \<le> len
        then accepted len (k + unat (ret e)) rs
      else None)"

text \<open>
  \<open>resumes bs k es\<close>: \<open>es\<close> consists of \<^verbatim>\<open>send\<close> calls only, and each call offers exactly
  the part of \<open>bs\<close> that the calls before it have not transferred, \<open>k\<close> bytes having
  been transferred before the first.
\<close>

fun resumes :: "byte list \<Rightarrow> nat \<Rightarrow> event list \<Rightarrow> bool" where
  "resumes bs k [] = True"
| "resumes bs k (Send fd offered n # es) =
     (offered = drop k bs \<and> resumes bs (k + length (transferred (Send fd offered n))) es)"
| "resumes bs k (_ # es) = False"

subsection \<open>The connection counter\<close>

text \<open>
  \<^verbatim>\<open>inc_clients\<close> and \<^verbatim>\<open>dec_clients\<close>, statement by statement. The counter is a C
  \<^verbatim>\<open>int\<close>; \<open>+ 1\<close> and \<open>- 1\<close> on \<open>32 word\<close> wrap where C leaves the overflow undefined.
\<close>

definition inc_clients :: "world \<Rightarrow> world" where
  "inc_clients w =
     (let w1 = emit [Mtx_lock] w;
          w2 = emit [Clients_incr] (w1\<lparr>g_connected_clients := g_connected_clients w1 + 1\<rparr>);
          now = g_connected_clients w2;
          w3 = emit [Mtx_unlock] w2
      in emit [Stderr_clients now] w3)"

definition dec_clients :: "world \<Rightarrow> world" where
  "dec_clients w =
     (let w1 = emit [Mtx_lock] w;
          w2 = emit [Clients_decr] (w1\<lparr>g_connected_clients := g_connected_clients w1 - 1\<rparr>);
          now = g_connected_clients w2;
          w3 = emit [Mtx_unlock] w2
      in emit [Stderr_clients now] w3)"

subsection \<open>client\_thread\<close>

lemma send_all_loop_env_length:
  "send_all_loop fd p len tot env w = Some (n, w', env') \<Longrightarrow> length env' \<le> length env"
proof (induction env arbitrary: tot w)
  case Nil
  then show ?case by (simp split: if_splits)
next
  case (Cons e env)
  then show ?case
    by (fastforce simp add: Let_def split: if_splits)
qed

text \<open>
  The \<^verbatim>\<open>while (1)\<close> loop of \<^verbatim>\<open>client_thread\<close>. \<^verbatim>\<open>recv\<close> stores the first \<open>r\<close> bytes of
  the response's payload at the start of \<^verbatim>\<open>buf\<close>. The loop leaves by one of three
  \<^verbatim>\<open>break\<close>s; with no response left it waits in \<^verbatim>\<open>recv\<close> or \<^verbatim>\<open>send\<close> for ever.
\<close>

function handler_loop ::
  "c_int \<Rightarrow> byte list \<Rightarrow> sysret list \<Rightarrow> world \<Rightarrow> (world \<times> sysret list) option" where
  "handler_loop fd buf [] w = None"
| "handler_loop fd buf (e # env) w =
     (let r = ret e;
          w1 = emit [Recv fd BUF_SIZE r] w
      in if sint r < 0 then
           (if errno e = EINTR then handler_loop fd buf env w1
            else Some (emit [Perror ''[server] recv''] w1, env))
         else if r = 0 then Some (w1, env)
         else
           (let d = take (unat r) (payload e);
                buf1 = d @ drop (length d) buf;
                buf2 = to_uppercase buf1 (unat r)
            in case send_all fd buf2 r env w1 of
                 None \<Rightarrow> None
               | Some (n, w2, env2) \<Rightarrow>
                   if sint n < 0 then Some (emit [Perror ''[server] send''] w2, env2)
                   else handler_loop fd buf2 env2 w2))"
  by pat_completeness auto
termination
proof (relation "measure (\<lambda>(fd, buf, env, w). length env)")
  show "wf (measure (\<lambda>(fd, buf, env, w). length env))"
    by simp
next
  fix fd :: c_int and buf :: "byte list" and e env and w :: world and x xa
  show "((fd, buf, env, xa), fd, buf, e # env, w) \<in> measure (\<lambda>(fd, buf, env, w). length env)"
    by simp
next
  fix fd :: c_int and buf :: "byte list" and e env and w :: world
    and x xa xb xc xd x2 xe y xf ya
  assume "send_all fd xd x env xa = Some x2" and "(xe, y) = x2" and "(xf, ya) = y"
  then have "send_all_loop fd xd x 0 env xa = Some (xe, xf, ya)"
    by (simp add: send_all_def)
  then have "length ya \<le> length env"
    by (rule send_all_loop_env_length)
  then show "((fd, xd, ya, xf), fd, buf, e # env, w) \<in> measure (\<lambda>(fd, buf, env, w). length env)"
    by simp
qed

text \<open>
  \<^verbatim>\<open>client_thread\<close>: take the descriptor, free the context, count the client in, run
  the loop, then \<^verbatim>\<open>close(fd); dec_clients();\<close>. \<open>buf0\<close> is the uninitialised
  \<^verbatim>\<open>buf[BUF_SIZE]\<close>.
\<close>

definition client_thread ::
  "c_int \<Rightarrow> byte list \<Rightarrow> sysret list \<Rightarrow> world \<Rightarrow> (world \<times> sysret list) option" where
  "client_thread fd buf0 env w =
     (case handler_loop fd buf0 env (inc_clients (emit [Free_ctx] w)) of
        None \<Rightarrow> None
      | Some (w1, env1) \<Rightarrow> Some (dec_clients (emit [Close fd] w1), env1))"

text \<open>
  The events of the loop (\<^verbatim>\<open>recv\<close>, \<^verbatim>\<open>send\<close>, \<^verbatim>\<open>perror\<close>), and the last event of each of
  its three exits: a \<^verbatim>\<open>recv\<close> that returned 0, the report of a failed \<^verbatim>\<open>recv\<close>, the
  report of a failed \<^verbatim>\<open>send_all\<close>. \<open>peer_closed\<close> is the response 0 of a call on a
  connection whose peer has shut down.
\<close>

fun loop_event :: "event \<Rightarrow> bool" where
  "loop_event (Recv fd cap r) = True"
| "loop_event (Send fd bs n) = True"
| "loop_event (Perror msg) = True"
| "loop_event _ = False"

definition loop_exit :: "c_int \<Rightarrow> event \<Rightarrow> bool" where
  "loop_exit fd ev = (ev = Recv fd BUF_SIZE 0 \<or> ev = Perror ''[server] recv''
                       \<or> ev = Perror ''[server] send'')"

definition peer_closed :: sysret where
  "peer_closed = Sysret 0 0 []"

subsection \<open>main: start-up\<close>

text \<open>
  \<^verbatim>\<open>main\<close> up to its accept loop. \<^verbatim>\<open>atoi\<close> of the C library is a parameter, \<open>argv\<close> is the
  argument vector (\<^verbatim>\<open>argc\<close> its length), and the results of \<^verbatim>\<open>socket\<close>, \<^verbatim>\<open>setsockopt\<close>,
  \<^verbatim>\<open>bind\<close> and \<^verbatim>\<open>listen\<close> come from the environment. \<^verbatim>\<open>die\<close> prints and exits with
  \<^verbatim>\<open>EXIT_FAILURE\<close> (1 in \<^verbatim>\<open><stdlib.h>\<close>). \<^verbatim>\<open>htons((uint16_t)port)\<close> is the cast to 16 bits;
  the byte order plays no part here.
\<close>

definition DEFAULT_PORT :: int where
  "DEFAULT_PORT = 5555"

definition BACKLOG :: int where
  "BACKLOG = 64"

definition EXIT_FAILURE :: int where
  "EXIT_FAILURE = 1"

datatype main_event =
    Signal_SIGPIPE_SIG_IGN
  | Usage string
  | Socket
  | Setsockopt_SO_REUSEADDR int
  | Bind int "16 word"
  | Listen int int
  | Die string
  | Stderr_listening int

datatype main_result = Exit int | Accept_loop int

record startup_env =
  socket_ret :: int
  setsockopt_ret :: int
  bind_ret :: int
  listen_ret :: int

definition main_startup ::
  "(string \<Rightarrow> int) \<Rightarrow> string list \<Rightarrow> startup_env \<Rightarrow> main_event list \<times> main_result" where
  "main_startup atoi argv k =
     (let argc = length argv;
          port = (if 2 \<le> argc then atoi (argv ! 1) else DEFAULT_PORT)
      in if 2 \<le> argc \<and> (port \<le> 0 \<or> port > 65535) then
           ([Signal_SIGPIPE_SIG_IGN, Usage (argv ! 0)], Exit EXIT_FAILURE)
         else
           (let listen_fd = socket_ret k in
            if listen_fd < 0 then
              ([Signal_SIGPIPE_SIG_IGN, Socket, Die ''socket''], Exit EXIT_FAILURE)
            else if setsockopt_ret k < 0 then
              ([Signal_SIGPIPE_SIG_IGN, Socket, Setsockopt_SO_REUSEADDR listen_fd,
                Die ''setsockopt(SO_REUSEADDR)''], Exit EXIT_FAILURE)
            else if bind_ret k < 0 then
              ([Signal_SIGPIPE_SIG_IGN, Socket, Setsockopt_SO_REUSEADDR listen_fd,
                Bind listen_fd (word_of_int port), Die ''bind''], Exit EXIT_FAILURE)
            else if listen_ret k < 0 then
              ([Signal_SIGPIPE_SIG_IGN, Socket, Setsockopt_SO_REUSEADDR listen_fd,
                Bind listen_fd (word_of_int port), Listen listen_fd BACKLOG, Die ''listen''],
               Exit EXIT_FAILURE)
            else
              ([Signal_SIGPIPE_SIG_IGN, Socket, Setsockopt_SO_REUSEADDR listen_fd,
                Bind listen_fd (word_of_int port), Listen listen_fd BACKLOG,
                Stderr_listening port],
               Accept_loop listen_fd)))"

subsection \<open>Threads sharing the counter\<close>

text \<open>
  Every accepted connection gets a thread that runs \<^verbatim>\<open>client_thread\<close>. For the claims
  about the shared counter the threads are interleaved statement by statement: a
  scheduler picks a thread, which executes its next statement. The program counter
  names the statement a thread executes next:
  \<^item> \<open>Inc_lock\<close> .. \<open>Inc_print\<close>: \<^verbatim>\<open>inc_clients\<close>, that is \<^verbatim>\<open>pthread_mutex_lock\<close>, the load
    and the store of \<^verbatim>\<open>g_connected_clients++\<close> (\<open>tmp\<close> is the register between them),
    \<^verbatim>\<open>int now = g_connected_clients\<close>, \<^verbatim>\<open>pthread_mutex_unlock\<close>, \<^verbatim>\<open>fprintf\<close>;
  \<^item> \<open>Loop\<close>: the \<^verbatim>\<open>while (1)\<close> loop, whose \<^verbatim>\<open>recv\<close>, \<^verbatim>\<open>to_uppercase\<close> and \<^verbatim>\<open>send_all\<close> touch
    only the thread's own descriptor and buffer; \<open>Close_fd\<close>: \<^verbatim>\<open>close(fd)\<close>;
  \<^item> \<open>Dec_lock\<close> .. \<open>Dec_print\<close>: \<^verbatim>\<open>dec_clients\<close>, likewise; \<open>Finished\<close>: returned.
  \<open>clients\<close> is \<^verbatim>\<open>g_connected_clients\<close>, \<open>mtx\<close> is \<^verbatim>\<open>g_clients_mtx\<close> (its owner, if locked),
  \<open>writes\<close> records each store to the counter and \<open>stderr\<close> each line printed, both
  with the thread; \<open>connections\<close> counts the connections \<^verbatim>\<open>accept\<close> returned.
\<close>

datatype pc =
    Inc_lock | Inc_load | Inc_store | Inc_now | Inc_unlock | Inc_print
  | Loop | Close_fd
  | Dec_lock | Dec_load | Dec_store | Dec_now | Dec_unlock | Dec_print
  | Finished

record thread =
  pc :: pc
  tmp :: c_int
  now :: c_int

record system =
  clients :: c_int
  mtx :: "nat option"
  threads :: "thread list"
  writes :: "(nat \<times> c_int) list"
  stderr :: "(nat \<times> c_int) list"
  connections :: nat

definition set_thread :: "nat \<Rightarrow> thread \<Rightarrow> system \<Rightarrow> system" where
  "set_thread t th s = s\<lparr>threads := (threads s)[t := th]\<rparr>"

text \<open>
  One statement of thread \<open>t\<close>. \<^verbatim>\<open>pthread_mutex_lock\<close> proceeds only when the mutex is
  free; otherwise the thread waits and the state is unchanged. An iteration of the
  loop changes nothing that is shared.
\<close>

definition step :: "nat \<Rightarrow> system \<Rightarrow> system" where
  "step t s =
     (if t < length (threads s) then
        (let th = threads s ! t in
         case pc th of
           Inc_lock \<Rightarrow>
             (if mtx s = None then (set_thread t (th\<lparr>pc := Inc_load\<rparr>) s)\<lparr>mtx := Some t\<rparr> else s)
         | Inc_load \<Rightarrow> set_thread t (th\<lparr>pc := Inc_store, tmp := clients s\<rparr>) s
         | Inc_store \<Rightarrow>
             (set_thread t (th\<lparr>pc := Inc_now\<rparr>) s)
               \<lparr>clients := tmp th + 1, writes := writes s @ [(t, tmp th + 1)]\<rparr>
         | Inc_now \<Rightarrow> set_thread t (th\<lparr>pc := Inc_unlock, now := clients s\<rparr>) s
         | Inc_unlock \<Rightarrow> (set_thread t (th\<lparr>pc := Inc_print\<rparr>) s)\<lparr>mtx := None\<rparr>
         | Inc_print \<Rightarrow>
             (set_thread t (th\<lparr>pc := Loop\<rparr>) s)\<lparr>stderr := stderr s @ [(t, now th)]\<rparr>
         | Loop \<Rightarrow> s
         | Close_fd \<Rightarrow> set_thread t (th\<lparr>pc := Dec_lock\<rparr>) s
         | Dec_lock \<Rightarrow>
             (if mtx s = None then (set_thread t (th\<lparr>pc := Dec_load\<rparr>) s)\<lparr>mtx := Some t\<rparr> else s)
         | Dec_load \<Rightarrow> set_thread t (th\<lparr>pc := Dec_store, tmp := clients s\<rparr>) s
         | Dec_store \<Rightarrow>
             (set_thread t (th\<lparr>pc := Dec_now\<rparr>) s)
               \<lparr>clients := tmp th - 1, writes := writes s @ [(t, tmp th - 1)]\<rparr>
         | Dec_now \<Rightarrow> set_thread t (th\<lparr>pc := Dec_unlock, now := clients s\<rparr>) s
         | Dec_unlock \<Rightarrow> (set_thread t (th\<lparr>pc := Dec_print\<rparr>) s)\<lparr>mtx := None\<rparr>
         | Dec_print \<Rightarrow>
             (set_thread t (th\<lparr>pc := Finished\<rparr>) s)\<lparr>stderr := stderr s @ [(t, now th)]\<rparr>
         | Finished \<Rightarrow> s)
      else s)"

text \<open>
  The listener's loop and the scheduler. \<open>Accept_failed\<close>: \<^verbatim>\<open>accept\<close> returned an error
  (\<^verbatim>\<open>continue\<close>). \<open>Thread_failed\<close>: a connection was accepted but \<^verbatim>\<open>malloc\<close> or
  \<^verbatim>\<open>pthread_create\<close> failed; it is closed and no thread runs. \<open>Spawn\<close>: a connection
  was accepted and its thread created. \<open>Step t\<close>: thread \<open>t\<close> executes a statement.
  \<open>Break t\<close>: thread \<open>t\<close> leaves its loop by one of the \<^verbatim>\<open>break\<close>s.
\<close>

datatype action = Accept_failed | Thread_failed | Spawn | Step nat | Break nat

definition exec :: "action \<Rightarrow> system \<Rightarrow> system" where
  "exec a s =
     (case a of
        Accept_failed \<Rightarrow> s
      | Thread_failed \<Rightarrow> s\<lparr>connections := connections s + 1\<rparr>
      | Spawn \<Rightarrow> s\<lparr>connections := connections s + 1,
                     threads := threads s @ [\<lparr>pc = Inc_lock, tmp = 0, now = 0\<rparr>]\<rparr>
      | Step t \<Rightarrow> step t s
      | Break t \<Rightarrow>
          (if t < length (threads s) \<and> pc (threads s ! t) = Loop
           then set_thread t ((threads s ! t)\<lparr>pc := Close_fd\<rparr>) s else s))"

fun run :: "action list \<Rightarrow> system \<Rightarrow> system" where
  "run [] s = s"
| "run (a # as) s = run as (exec a s)"

text \<open>The state at process start, the counter at \<open>c0\<close> (0 in \<^verbatim>\<open>server.c\<close>).\<close>

definition init :: "c_int \<Rightarrow> system" where
  "init c0 = \<lparr>clients = c0, mtx = None, threads = [], writes = [], stderr = [], connections = 0\<rparr>"

text \<open>
  \<open>holds_mtx\<close>: the statements between \<^verbatim>\<open>pthread_mutex_lock\<close> and \<^verbatim>\<open>pthread_mutex_unlock\<close>.
  \<open>counted\<close>: the thread has stored its increment and not yet stored its decrement;
  \<open>connected\<close> is the number of such threads. \<open>values_of t log\<close>: the values thread
  \<open>t\<close> has in a log, in order. \<open>serial c vs\<close>: the values \<open>vs\<close> are what a counter
  starting at \<open>c\<close> shows under one increment or decrement after the other.
  \<open>pending\<close>: the value a thread has stored and not yet printed.
\<close>

fun holds_mtx :: "pc \<Rightarrow> bool" where
  "holds_mtx Inc_load = True"
| "holds_mtx Inc_store = True"
| "holds_mtx Inc_now = True"
| "holds_mtx Inc_unlock = True"
| "holds_mtx Dec_load = True"
| "holds_mtx Dec_store = True"
| "holds_mtx Dec_now = True"
| "holds_mtx Dec_unlock = True"
| "holds_mtx _ = False"

fun counted :: "pc \<Rightarrow> bool" where
  "counted Inc_now = True"
| "counted Inc_unlock = True"
| "counted Inc_print = True"
| "counted Loop = True"
| "counted Close_fd = True"
| "counted Dec_lock = True"
| "counted Dec_load = True"
| "counted Dec_store = True"
| "counted _ = False"

definition connected :: "thread list \<Rightarrow> nat" where
  "connected ths = length (filter (\<lambda>th. counted (pc th)) ths)"

definition values_of :: "nat \<Rightarrow> (nat \<times> c_int) list \<Rightarrow> c_int list" where
  "values_of t log = map snd (filter (\<lambda>e. fst e = t) log)"

fun serial :: "c_int \<Rightarrow> c_int list \<Rightarrow> bool" where
  "serial c [] = True"
| "serial c (v # vs) = ((v = c + 1 \<or> v = c - 1) \<and> serial v vs)"

definition pending :: "c_int \<Rightarrow> thread \<Rightarrow> c_int list" where
  "pending g th =
     (if pc th = Inc_now \<or> pc th = Dec_now then [g]
      else if pc th = Inc_unlock \<or> pc th = Inc_print \<or> pc th = Dec_unlock \<or> pc th = Dec_print
        then [now th]
      else [])"

text \<open>The invariants of the interleaving.\<close>

definition inv_mutex :: "system \<Rightarrow> bool" where
  "inv_mutex s =
     ((\<forall>t < length (threads s). holds_mtx (pc (threads s ! t)) = (mtx s = Some t))
      \<and> (\<forall>t. mtx s = Some t \<longrightarrow> t < length (threads s)))"

definition inv_tmp :: "system \<Rightarrow> bool" where
  "inv_tmp s =
     (\<forall>t < length (threads s).
        pc (threads s ! t) = Inc_store \<or> pc (threads s ! t) = Dec_store
        \<longrightarrow> tmp (threads s ! t) = clients s)"

definition inv_count :: "c_int \<Rightarrow> system \<Rightarrow> bool" where
  "inv_count c0 s = (clients s = c0 + of_nat (connected (threads s)))"

definition inv_log :: "system \<Rightarrow> bool" where
  "inv_log s =
     ((\<forall>t < length (threads s).
         values_of t (writes s) = values_of t (stderr s) @ pending (clients s) (threads s ! t))
      \<and> (\<forall>e \<in> set (writes s) \<union> set (stderr s). fst e < length (threads s)))"

definition inv_serial :: "c_int \<Rightarrow> system \<Rightarrow> bool" where
  "inv_serial c0 s =
     (serial c0 (map snd (writes s)) \<and> clients s = last (c0 # map snd (writes s)))"

definition inv_range :: "system \<Rightarrow> bool" where
  "inv_range s =
     (length (threads s) \<le> connections s
      \<and> (\<forall>e \<in> set (writes s). unat (snd e) \<le> length (threads s)))"

definition inv :: "c_int \<Rightarrow> system \<Rightarrow> bool" where
  "inv c0 s = (inv_mutex s \<and> inv_tmp s \<and> inv_count c0 s \<and> inv_log s \<and> inv_serial c0 s)"

section \<open>Properties of to\_uppercase\<close>

lemma toupper_byte_cases:
  "toupper_byte b = (if 0x61 \<le> b \<and> b \<le> 0x7A then b - 0x20 else b)"
proof -
  have le1: "(0x61 \<le> b) = (97 \<le> uint b)"
    by (simp add: word_le_def)
  have le2: "(b \<le> 0x7A) = (uint b \<le> 122)"
    by (simp add: word_le_def)
  have "word_of_int (uint b - 32) = b - 0x20"
    by simp
  then show ?thesis
    by (simp add: toupper_byte_def toupper_def le1 le2)
qed

lemma to_uppercase_loop_length:
  "length (to_uppercase_loop buf n i) = length buf"
proof (induction buf n i rule: to_uppercase_loop.induct)
  case (1 buf n i)
  then show ?case
    by (subst to_uppercase_loop.simps) (simp del: to_uppercase_loop.simps)
qed

lemma to_uppercase_loop_nth:
  "k < length buf \<Longrightarrow>
   to_uppercase_loop buf n i ! k = (if i \<le> k \<and> k < n then toupper_byte (buf ! k) else buf ! k)"
proof (induction buf n i rule: to_uppercase_loop.induct)
  case (1 buf n i)
  show ?case
  proof (cases "i < n")
    case True
    have eq: "to_uppercase_loop buf n i
        = to_uppercase_loop (buf[i := toupper_byte (buf ! i)]) n (Suc i)"
      using True by (subst to_uppercase_loop.simps) simp
    have "k = i \<or> k < i \<or> Suc i \<le> k" by arith
    with 1 True show ?thesis
      unfolding eq by (auto simp del: to_uppercase_loop.simps simp add: nth_list_update)
  next
    case False
    then show ?thesis by (subst to_uppercase_loop.simps) auto
  qed
qed

text \<open>
  C2. For a buffer and a count \<open>n\<close> of bytes read (\<open>n \<le> length buf\<close>), \<^verbatim>\<open>to_uppercase\<close>
  keeps the length; byte \<open>i\<close> of the result is byte \<open>i\<close> of the input, lowered by 32
  (to its upper-case letter) when \<open>i < n\<close> and the byte is in \<^verbatim>\<open>'a'\<close>..\<^verbatim>\<open>'z'\<close>, and
  unchanged otherwise, in particular at every \<open>i \<ge> n\<close>. The byte function has this
  form on all 256 byte values.
\<close>

theorem to_uppercase_correct:
  assumes "n \<le> length buf"
  shows "length (to_uppercase buf n) = length buf
       \<and> (\<forall>i < length buf. to_uppercase buf n ! i
             = (if i < n
                then (if 0x61 \<le> buf ! i \<and> buf ! i \<le> 0x7A then buf ! i - 0x20 else buf ! i)
                else buf ! i))
       \<and> (\<forall>b. toupper_byte b = (if 0x61 \<le> b \<and> b \<le> 0x7A then b - 0x20 else b))"
  by (simp add: to_uppercase_def to_uppercase_loop_nth to_uppercase_loop_length
        toupper_byte_cases del: to_uppercase_loop.simps)

text \<open>The bytes of \<^verbatim>\<open>"hello!za"\<close> with six bytes read: \<^verbatim>\<open>"HELLO!za"\<close>.\<close>

theorem to_uppercase_correct_witness:
  "(6::nat) \<le> length [0x68, 0x65, 0x6C, 0x6C, 0x6F, 0x21, 0x7A, 0x61 :: byte]
   \<and> to_uppercase [0x68, 0x65, 0x6C, 0x6C, 0x6F, 0x21, 0x7A, 0x61] 6 ! 4 = 0x4F
   \<and> to_uppercase [0x68, 0x65, 0x6C, 0x6C, 0x6F, 0x21, 0x7A, 0x61] 6 ! 5 = 0x21
   \<and> to_uppercase [0x68, 0x65, 0x6C, 0x6C, 0x6F, 0x21, 0x7A, 0x61] 6 ! 6 = 0x7A"
  using to_uppercase_correct [of 6 "[0x68, 0x65, 0x6C, 0x6C, 0x6F, 0x21, 0x7A, 0x61]"]
  by simp

section \<open>Properties of send\_all\<close>

lemma emit_emit [simp]: "emit es (emit es' w) = emit (es' @ es) w"
  by (simp add: emit_def)

lemma emit_Nil [simp]: "emit [] w = w"
  by (simp add: emit_def)

lemma trace_emit [simp]: "trace (emit es w) = trace w @ es"
  by (simp add: emit_def)

lemma counter_emit [simp]: "g_connected_clients (emit es w) = g_connected_clients w"
  by (simp add: emit_def)

lemma wire_Cons [simp]: "wire (e # es) = transferred e @ wire es"
  by (simp add: wire_def)

lemma wire_Nil [simp]: "wire [] = []"
  by (simp add: wire_def)

lemma wire_append [simp]: "wire (es @ es') = wire es @ wire es'"
  by (simp add: wire_def)

lemma resumes_append:
  "resumes bs k (es @ es') = (resumes bs k es \<and> resumes bs (k + length (wire es)) es')"
proof (induction bs k es rule: resumes.induct)
  case (1 bs k)
  then show ?case by simp
next
  case (2 bs k fd offered n es)
  then show ?case by (simp add: add.assoc del: transferred.simps)
qed simp_all

lemma send_all_loop_accepted:
  assumes "accepted (unat len) (unat tot) pre = Some k"
    and "unat tot \<le> unat len" and "unat len \<le> length p"
  shows "\<exists>es. send_all_loop fd p len tot (pre @ rest) w
               = send_all_loop fd p len (of_nat k) rest (emit es w)
           \<and> wire es = take (k - unat tot) (drop (unat tot) p)
           \<and> resumes (take (unat len) p) (unat tot) es
           \<and> unat tot \<le> k \<and> k \<le> unat len"
  using assms
proof (induction pre arbitrary: tot w)
  case Nil
  then have "k = unat tot" by simp
  then have "send_all_loop fd p len tot ([] @ rest) w
        = send_all_loop fd p len (of_nat k) rest (emit [] w)" by simp
  with Nil \<open>k = unat tot\<close> show ?case
    by (intro exI [of _ "[]"]) simp
next
  case (Cons e pre)
  from Cons.prems have lt: "unat tot < unat len"
    by (simp split: if_splits)
  then have wlt: "tot < len" by (simp add: word_less_nat_alt)
  have sub: "unat (len - tot) = unat len - unat tot"
    using wlt by (simp add: unat_sub)
  let ?ev = "Send fd (take (unat (len - tot)) (drop (unat tot) p)) (ret e)"
  show ?case
  proof (cases "is_eintr e")
    case True
    with Cons.prems lt have acc: "accepted (unat len) (unat tot) pre = Some k" by simp
    from Cons.IH [OF acc Cons.prems(2,3), of "emit [?ev] w"]
    obtain es where es: "send_all_loop fd p len tot (pre @ rest) (emit [?ev] w)
               = send_all_loop fd p len (of_nat k) rest (emit es (emit [?ev] w))"
      "wire es = take (k - unat tot) (drop (unat tot) p)"
      "resumes (take (unat len) p) (unat tot) es" "unat tot \<le> k" "k \<le> unat len"
      by blast
    from True have neg: "sint (ret e) < 0" "errno e = EINTR" by (simp_all add: is_eintr_def)
    have "send_all_loop fd p len tot ((e # pre) @ rest) w
        = send_all_loop fd p len (of_nat k) rest (emit (?ev # es) w)"
      using wlt neg es(1) by (simp add: Let_def)
    moreover have "wire (?ev # es) = take (k - unat tot) (drop (unat tot) p)"
      using neg es(2) by simp
    moreover have "resumes (take (unat len) p) (unat tot) (?ev # es)"
      using neg es(3) by (simp add: sub drop_take)
    ultimately show ?thesis using es(4,5) by blast
  next
    case False
    with Cons.prems lt have pos: "0 < sint (ret e)" and le: "unat tot + unat (ret e) \<le> unat len"
      and acc: "accepted (unat len) (unat tot + unat (ret e)) pre = Some k"
      by (simp_all split: if_splits)
    have "unat len < 2 ^ 64" using unsigned_less [of len] by simp
    with le have add: "unat (tot + ret e) = unat tot + unat (ret e)"
      by (simp add: unat_add_lem [THEN iffD1])
    have nz: "ret e \<noteq> 0" using pos by auto
    have npos: "0 < unat (ret e)" using nz by (simp add: unat_gt_0)
    from Cons.IH [of "tot + ret e", unfolded add, OF acc le Cons.prems(3), of "emit [?ev] w"]
    obtain es where es: "send_all_loop fd p len (tot + ret e) (pre @ rest) (emit [?ev] w)
               = send_all_loop fd p len (of_nat k) rest (emit es (emit [?ev] w))"
      "wire es = take (k - (unat tot + unat (ret e))) (drop (unat tot + unat (ret e)) p)"
      "resumes (take (unat len) p) (unat tot + unat (ret e)) es"
      "unat tot + unat (ret e) \<le> k" "k \<le> unat len"
      by blast
    have "send_all_loop fd p len tot ((e # pre) @ rest) w
        = send_all_loop fd p len (of_nat k) rest (emit (?ev # es) w)"
      using wlt pos nz es(1) by (simp add: Let_def)
    moreover have tr: "transferred ?ev = take (unat (ret e)) (drop (unat tot) p)"
      using pos le by (simp add: sub min_def)
    have "wire (?ev # es) = take (k - unat tot) (drop (unat tot) p)"
    proof -
      have "k - unat tot = unat (ret e) + (k - (unat tot + unat (ret e)))"
        using es(4) by simp
      then have "take (k - unat tot) (drop (unat tot) p)
          = take (unat (ret e)) (drop (unat tot) p)
            @ take (k - (unat tot + unat (ret e))) (drop (unat (ret e)) (drop (unat tot) p))"
        by (simp only: take_add)
      then show ?thesis using tr es(2) by (simp add: add.commute)
    qed
    moreover have "resumes (take (unat len) p) (unat tot) (?ev # es)"
    proof -
      have "length (transferred ?ev) = unat (ret e)"
        using tr le Cons.prems(3) by simp
      then show ?thesis using es(3) by (simp add: sub drop_take del: transferred.simps)
    qed
    ultimately show ?thesis using es(4,5) by (intro exI [of _ "?ev # es"]) linarith
  qed
qed

lemma send_all_loop_done:
  "\<not> tot < len \<Longrightarrow> send_all_loop fd p len tot env w = Some (tot, w, env)"
  by (cases env) simp_all

text \<open>
  C4. Let the buffer hold \<open>len\<close> bytes and let every \<^verbatim>\<open>send\<close> call either transfer at
  least one byte or fail as interrupted, \<open>k\<close> bytes going out over the responses
  \<open>rs\<close>. If that completes the buffer (\<open>k = len\<close>), \<^verbatim>\<open>send_all\<close> returns \<open>len\<close> (the
  \<^verbatim>\<open>ssize_t\<close> with the bits of \<open>len\<close>), the bytes put on the connection are exactly the
  first \<open>len\<close> bytes of the buffer, in order and once each, and every call offers the
  bytes from the first unwritten one on. If instead the next call transfers zero
  bytes, \<^verbatim>\<open>send_all\<close> returns at once with \<open>k\<close>, the number of bytes written so far,
  having put the first \<open>k\<close> bytes on the connection. In both cases it consumes no
  further response.
\<close>

theorem send_all_complete:
  assumes "unat len \<le> length buf" and "accepted (unat len) 0 rs = Some k"
  shows "(k = unat len \<longrightarrow>
            (\<exists>es. send_all fd buf len (rs @ rest) w = Some (len, emit es w, rest)
               \<and> wire es = take (unat len) buf
               \<and> resumes (take (unat len) buf) 0 es))
       \<and> (k < unat len \<and> ret z = 0 \<longrightarrow>
            (\<exists>es r. send_all fd buf len (rs @ z # rest) w = Some (r, emit es w, rest)
               \<and> unat r = k
               \<and> wire es = take k buf
               \<and> resumes (take (unat len) buf) 0 es))"
proof -
  from send_all_loop_accepted [of len 0 rs k buf fd _ w] assms
  have run: "\<exists>es. send_all_loop fd buf len 0 (rs @ rest') w
               = send_all_loop fd buf len (of_nat k) rest' (emit es w)
           \<and> wire es = take k buf
           \<and> resumes (take (unat len) buf) 0 es \<and> k \<le> unat len" for rest'
    by simp
  have full: ?thesis if "k = unat len"
  proof -
    from run [of rest] obtain es where es:
      "send_all_loop fd buf len 0 (rs @ rest) w
         = send_all_loop fd buf len (of_nat k) rest (emit es w)"
      "wire es = take k buf" "resumes (take (unat len) buf) 0 es"
      by blast
    have "of_nat k = len" using that by simp
    then have "send_all fd buf len (rs @ rest) w = Some (len, emit es w, rest)"
      using es(1) by (simp add: send_all_def send_all_loop_done)
    then show ?thesis using es(2,3) that by auto
  qed
  have part: ?thesis if lt: "k < unat len" and z: "ret z = 0"
  proof -
    from run [of "z # rest"] obtain es where es:
      "send_all_loop fd buf len 0 (rs @ z # rest) w
         = send_all_loop fd buf len (of_nat k) (z # rest) (emit es w)"
      "wire es = take k buf" "resumes (take (unat len) buf) 0 es"
      by blast
    have "unat len < 2 ^ 64" using unsigned_less [of len] by simp
    with lt have k64: "k < 2 ^ 64" by simp
    then have uk: "unat (of_nat k :: size_t) = k"
      by (simp add: unat_of_nat)
    then have wlt: "(of_nat k :: size_t) < len"
      using lt by (simp add: word_less_nat_alt)
    let ?ev = "Send fd (take (unat (len - of_nat k)) (drop k buf)) 0"
    have sub: "unat (len - of_nat k) = unat len - k"
      using wlt uk by (simp add: unat_sub)
    have "send_all fd buf len (rs @ z # rest) w = Some (of_nat k, emit (es @ [?ev]) w, rest)"
      using es(1) wlt z uk by (simp add: send_all_def Let_def)
    moreover have "wire (es @ [?ev]) = take k buf"
      using es(2) by simp
    moreover have "length (wire es) = k"
      using es(2) lt assms(1) by simp
    then have "resumes (take (unat len) buf) 0 (es @ [?ev])"
      using es(3) by (simp add: resumes_append sub drop_take)
    ultimately show ?thesis using uk lt by blast
  qed
  from full part show ?thesis by blast
qed

text \<open>
  \<^verbatim>\<open>"hello"\<close>, five bytes: a transfer of 2, an interruption, a transfer of 3; and a
  transfer of 2 followed by a zero-byte transfer.
\<close>

theorem send_all_complete_witness:
  "unat (5 :: size_t) \<le> length [0x68, 0x65, 0x6C, 0x6C, 0x6F :: byte]
   \<and> accepted (unat (5 :: size_t)) 0 [Sysret 2 0 [], Sysret (- 1) 4 [], Sysret 3 0 []] = Some 5
   \<and> (\<exists>es. send_all 7 [0x68, 0x65, 0x6C, 0x6C, 0x6F] 5
               ([Sysret 2 0 [], Sysret (- 1) 4 [], Sysret 3 0 []] @ [])
               \<lparr>g_connected_clients = 0, trace = []\<rparr>
             = Some (5, emit es \<lparr>g_connected_clients = 0, trace = []\<rparr>, [])
          \<and> wire es = [0x68, 0x65, 0x6C, 0x6C, 0x6F])
   \<and> accepted (unat (5 :: size_t)) 0 [Sysret 2 0 []] = Some 2
   \<and> (\<exists>es r. send_all 7 [0x68, 0x65, 0x6C, 0x6C, 0x6F] 5
               ([Sysret 2 0 []] @ Sysret 0 0 [] # [])
               \<lparr>g_connected_clients = 0, trace = []\<rparr>
             = Some (r, emit es \<lparr>g_connected_clients = 0, trace = []\<rparr>, [])
          \<and> unat r = 2
          \<and> wire es = [0x68, 0x65])"
proof -
  have h1: "unat (5 :: size_t) \<le> length [0x68, 0x65, 0x6C, 0x6C, 0x6F :: byte]"
    by simp
  have h2: "accepted (unat (5 :: size_t)) 0 [Sysret 2 0 [], Sysret (- 1) 4 [], Sysret 3 0 []]
      = Some 5"
    by (simp add: is_eintr_def EINTR_def)
  have h3: "accepted (unat (5 :: size_t)) 0 [Sysret 2 0 []] = Some 2"
    by (simp add: is_eintr_def EINTR_def)
  from send_all_complete [OF h1 h2, of 7 "[]" "\<lparr>g_connected_clients = 0, trace = []\<rparr>"]
  have a: "\<exists>es. send_all 7 [0x68, 0x65, 0x6C, 0x6C, 0x6F] 5
               ([Sysret 2 0 [], Sysret (- 1) 4 [], Sysret 3 0 []] @ [])
               \<lparr>g_connected_clients = 0, trace = []\<rparr>
             = Some (5, emit es \<lparr>g_connected_clients = 0, trace = []\<rparr>, [])
          \<and> wire es = [0x68, 0x65, 0x6C, 0x6C, 0x6F]"
    by simp blast
  from send_all_complete [OF h1 h3, of 7 "[]"
      "\<lparr>g_connected_clients = 0, trace = []\<rparr>" "Sysret 0 0 []"]
  have b: "\<exists>es r. send_all 7 [0x68, 0x65, 0x6C, 0x6C, 0x6F] 5
               ([Sysret 2 0 []] @ Sysret 0 0 [] # [])
               \<lparr>g_connected_clients = 0, trace = []\<rparr>
             = Some (r, emit es \<lparr>g_connected_clients = 0, trace = []\<rparr>, [])
          \<and> unat r = 2
          \<and> wire es = [0x68, 0x65]"
    by simp blast
  from h1 h2 h3 a b show ?thesis by blast
qed

lemma send_all_loop_error_step:
  assumes "tot < len" and "sint (ret e) < 0" and "errno e \<noteq> EINTR"
  shows "send_all_loop fd p len tot (e # env) w
       = send_all_loop fd p len (tot + ret e) env
           (emit [Send fd (take (unat (len - tot)) (drop (unat tot) p)) (ret e)] w)"
proof -
  from assms(2) have "ret e \<noteq> 0" by auto
  with assms show ?thesis by (simp add: Let_def)
qed

text \<open>
  C5. The claim fails on the code. A \<^verbatim>\<open>send\<close> that returns \<open>-1\<close> with an \<^verbatim>\<open>errno\<close> other
  than \<^verbatim>\<open>EINTR\<close> (here 12, \<^verbatim>\<open>ENOMEM\<close>) passes both tests of the loop and reaches
  \<^verbatim>\<open>total += (size_t)n\<close>. After 3 of 5 bytes the count drops to 2 and a third call is
  made, offering the bytes from index 2 on, so that byte 2 goes out twice and 5 is
  returned. When the first call fails, the count wraps to \<open>2^64 - 1\<close>, above \<open>len\<close>.
\<close>

theorem send_all_error_continues:
  "send_all 7 [0x68, 0x65, 0x6C, 0x6C, 0x6F] 5
       [Sysret 3 0 [], Sysret (- 1) 12 [], Sysret 3 0 []]
       \<lparr>g_connected_clients = 0, trace = []\<rparr>
     = Some (5, \<lparr>g_connected_clients = 0,
                 trace = [Send 7 [0x68, 0x65, 0x6C, 0x6C, 0x6F] 3,
                          Send 7 [0x6C, 0x6F] (- 1),
                          Send 7 [0x6C, 0x6C, 0x6F] 3]\<rparr>, [])
   \<and> wire [Send 7 [0x68, 0x65, 0x6C, 0x6C, 0x6F] 3, Send 7 [0x6C, 0x6F] (- 1),
            Send 7 [0x6C, 0x6C, 0x6F] 3]
     = [0x68, 0x65, 0x6C, 0x6C, 0x6C, 0x6F]
   \<and> send_all_loop 7 [0x68, 0x65, 0x6C, 0x6C, 0x6F] 5 0
       [Sysret (- 1) 12 [], Sysret 3 0 []]
       \<lparr>g_connected_clients = 0, trace = []\<rparr>
     = send_all_loop 7 [0x68, 0x65, 0x6C, 0x6C, 0x6F] 5 0xFFFFFFFFFFFFFFFF
       [Sysret 3 0 []]
       \<lparr>g_connected_clients = 0, trace = [Send 7 [0x68, 0x65, 0x6C, 0x6C, 0x6F] (- 1)]\<rparr>"
  by (simp add: send_all_def EINTR_def emit_def Let_def)

section \<open>Properties of client\_thread\<close>

lemma send_all_loop_trace:
  "send_all_loop fd p len tot env w = Some (n, w', env')
   \<Longrightarrow> \<exists>es. w' = emit es w \<and> list_all loop_event es"
proof (induction env arbitrary: tot w)
  case Nil
  then show ?case
    by (auto split: if_splits intro: exI [of _ "[]"])
next
  case (Cons e env)
  show ?case
  proof (cases "tot < len")
    case False
    with Cons.prems show ?thesis
      by (auto intro: exI [of _ "[]"])
  next
    case True
    let ?ev = "Send fd (take (unat (len - tot)) (drop (unat tot) p)) (ret e)"
    consider (eintr) "sint (ret e) < 0 \<and> errno e = EINTR"
      | (zero) "\<not> (sint (ret e) < 0 \<and> errno e = EINTR)" "ret e = 0"
      | (go) "\<not> (sint (ret e) < 0 \<and> errno e = EINTR)" "ret e \<noteq> 0"
      by blast
    then show ?thesis
    proof cases
      case eintr
      with True Cons.prems
      have "send_all_loop fd p len tot env (emit [?ev] w) = Some (n, w', env')"
        by (simp add: Let_def)
      from Cons.IH [OF this] obtain es where "w' = emit es (emit [?ev] w)" "list_all loop_event es"
        by blast
      then show ?thesis
        by (intro exI [of _ "?ev # es"]) simp
    next
      case zero
      with True Cons.prems have "w' = emit [?ev] w"
        by (auto simp add: Let_def)
      then show ?thesis
        by (intro exI [of _ "[?ev]"]) simp
    next
      case go
      with True Cons.prems
      have "send_all_loop fd p len (tot + ret e) env (emit [?ev] w) = Some (n, w', env')"
        by (simp add: Let_def)
      from Cons.IH [OF this] obtain es where "w' = emit es (emit [?ev] w)" "list_all loop_event es"
        by blast
      then show ?thesis
        by (intro exI [of _ "?ev # es"]) simp
    qed
  qed
qed

lemma handler_loop_trace:
  "handler_loop fd buf env w = Some (w', env')
   \<Longrightarrow> \<exists>body. w' = emit body w \<and> body \<noteq> [] \<and> list_all loop_event body
          \<and> loop_exit fd (last body)"
proof (induction fd buf env w rule: handler_loop.induct)
  case (1 fd buf w)
  then show ?case by simp
next
  case (2 fd buf e env w)
  let ?r = "ret e"
  let ?w1 = "emit [Recv fd BUF_SIZE ?r] w"
  let ?d = "take (unat ?r) (payload e)"
  let ?buf2 = "to_uppercase (?d @ drop (length ?d) buf) (unat ?r)"
  consider (eintr) "sint ?r < 0" "errno e = EINTR"
    | (err) "sint ?r < 0" "errno e \<noteq> EINTR"
    | (zero) "\<not> sint ?r < 0" "?r = 0"
    | (data) "\<not> sint ?r < 0" "?r \<noteq> 0"
    by blast
  then show ?case
  proof cases
    case eintr
    with "2.prems" have "handler_loop fd buf env ?w1 = Some (w', env')"
      by (simp add: Let_def)
    from "2.IH"(1) [OF refl refl eintr this]
    obtain body where b: "w' = emit body ?w1" "body \<noteq> []" "list_all loop_event body"
      "loop_exit fd (last body)"
      by blast
    then show ?thesis
      by (intro exI [of _ "Recv fd BUF_SIZE ?r # body"]) simp
  next
    case err
    with "2.prems" have "w' = emit [Recv fd BUF_SIZE ?r, Perror ''[server] recv''] w"
      by (simp add: Let_def)
    then show ?thesis
      by (intro exI [of _ "[Recv fd BUF_SIZE ?r, Perror ''[server] recv'']"])
         (simp add: loop_exit_def)
  next
    case zero
    with "2.prems" have "w' = emit [Recv fd BUF_SIZE 0] w"
      by (simp add: Let_def)
    then show ?thesis
      by (intro exI [of _ "[Recv fd BUF_SIZE 0]"]) (simp add: loop_exit_def)
  next
    case data
    with "2.prems" obtain n w2 env2 where
      sa: "send_all fd ?buf2 ?r env ?w1 = Some (n, w2, env2)"
      by (auto simp add: Let_def split: option.splits)
    then obtain es where es: "w2 = emit es ?w1" "list_all loop_event es"
      unfolding send_all_def using send_all_loop_trace by blast
    show ?thesis
    proof (cases "sint n < 0")
      case True
      with data sa "2.prems" have "w' = emit [Perror ''[server] send''] w2"
        by (simp add: Let_def)
      with es show ?thesis
        by (intro exI [of _ "Recv fd BUF_SIZE ?r # es @ [Perror ''[server] send'']"])
           (simp add: loop_exit_def)
    next
      case False
      with data sa "2.prems" have "handler_loop fd ?buf2 env2 w2 = Some (w', env')"
        by (simp add: Let_def)
      from "2.IH"(2) [OF refl refl data(1) data(2) refl refl refl sa refl refl False this]
      obtain body where b: "w' = emit body w2" "body \<noteq> []" "list_all loop_event body"
        "loop_exit fd (last body)"
        by blast
      with es show ?thesis
        by (intro exI [of _ "Recv fd BUF_SIZE ?r # es @ body"]) simp
    qed
  qed
qed


lemma send_all_loop_closing:
  assumes "ret z = 0"
  shows "\<exists>r w' env'. send_all_loop fd p len tot (env @ z # rest) w = Some (r, w', env')
           \<and> (env' = rest \<or> (\<exists>env''. env' = env'' @ z # rest \<and> length env'' \<le> length env))"
proof (induction env arbitrary: tot w)
  case Nil
  show ?case using assms by (simp add: Let_def)
next
  case (Cons e env)
  let ?ev = "Send fd (take (unat (len - tot)) (drop (unat tot) p)) (ret e)"
  consider (full) "\<not> tot < len"
    | (eintr) "tot < len" "sint (ret e) < 0 \<and> errno e = EINTR"
    | (zero) "tot < len" "\<not> (sint (ret e) < 0 \<and> errno e = EINTR)" "ret e = 0"
    | (go) "tot < len" "\<not> (sint (ret e) < 0 \<and> errno e = EINTR)" "ret e \<noteq> 0"
    by blast
  then show ?case
  proof cases
    case full
    then have "send_all_loop fd p len tot ((e # env) @ z # rest) w
        = Some (tot, w, (e # env) @ z # rest)"
      by simp
    then show ?thesis by blast
  next
    case eintr
    then have eq: "send_all_loop fd p len tot ((e # env) @ z # rest) w
        = send_all_loop fd p len tot (env @ z # rest) (emit [?ev] w)"
      by (simp add: Let_def)
    from Cons.IH [of tot "emit [?ev] w"] show ?thesis
      unfolding eq by (auto intro: le_SucI)
  next
    case zero
    then have "send_all_loop fd p len tot ((e # env) @ z # rest) w
        = Some (tot, emit [?ev] w, env @ z # rest)"
      by (simp add: Let_def)
    then show ?thesis by (auto intro: le_SucI)
  next
    case go
    then have eq: "send_all_loop fd p len tot ((e # env) @ z # rest) w
        = send_all_loop fd p len (tot + ret e) (env @ z # rest) (emit [?ev] w)"
      by (auto simp add: Let_def)
    from Cons.IH [of "tot + ret e" "emit [?ev] w"] show ?thesis
      unfolding eq by (auto intro: le_SucI)
  qed
qed

lemma handler_loop_peer_closed:
  "handler_loop fd buf (peer_closed # env) w = Some (emit [Recv fd BUF_SIZE 0] w, env)"
  by (simp add: peer_closed_def Let_def)

lemma handler_loop_closing:
  "handler_loop fd buf (env @ [peer_closed, peer_closed]) w \<noteq> None"
proof (induction "length env" arbitrary: env buf w rule: less_induct)
  case less
  show ?case
  proof (cases env)
    case Nil
    then show ?thesis by (simp add: handler_loop_peer_closed del: handler_loop.simps)
  next
    case (Cons e env1)
    let ?r = "ret e"
    let ?w1 = "emit [Recv fd BUF_SIZE ?r] w"
    let ?d = "take (unat ?r) (payload e)"
    let ?buf2 = "to_uppercase (?d @ drop (length ?d) buf) (unat ?r)"
    let ?tail = "env1 @ [peer_closed, peer_closed]"
    consider (eintr) "sint ?r < 0" "errno e = EINTR"
      | (err) "sint ?r < 0" "errno e \<noteq> EINTR"
      | (zero) "\<not> sint ?r < 0" "?r = 0"
      | (data) "\<not> sint ?r < 0" "?r \<noteq> 0"
      by blast
    then show ?thesis
    proof cases
      case eintr
      then have "handler_loop fd buf (env @ [peer_closed, peer_closed]) w
          = handler_loop fd buf ?tail ?w1"
        using Cons by (simp add: Let_def)
      with less [of env1 buf ?w1] Cons show ?thesis by simp
    next
      case err
      then show ?thesis using Cons by (simp add: Let_def)
    next
      case zero
      then show ?thesis using Cons by (simp add: Let_def)
    next
      case data
      have z: "ret peer_closed = 0" by (simp add: peer_closed_def)
      from send_all_loop_closing [OF z, of fd ?buf2 ?r 0 env1 "[peer_closed]" ?w1]
      obtain n w2 env2 where
        sa: "send_all fd ?buf2 ?r ?tail ?w1 = Some (n, w2, env2)"
        and rest: "env2 = [peer_closed]
                 \<or> (\<exists>env''. env2 = env'' @ [peer_closed, peer_closed] \<and> length env'' \<le> length env1)"
        by (auto simp add: send_all_def)
      have step: "handler_loop fd buf (env @ [peer_closed, peer_closed]) w
          = (if sint n < 0 then Some (emit [Perror ''[server] send''] w2, env2)
             else handler_loop fd ?buf2 env2 w2)"
        using data sa Cons by (simp add: Let_def)
      show ?thesis
      proof (cases "sint n < 0")
        case True
        with step show ?thesis by simp
      next
        case False
        from rest show ?thesis
        proof
          assume "env2 = [peer_closed]"
          with step False show ?thesis
            by (simp add: handler_loop_peer_closed del: handler_loop.simps)
        next
          assume "\<exists>env''. env2 = env'' @ [peer_closed, peer_closed] \<and> length env'' \<le> length env1"
          then obtain env'' where e2: "env2 = env'' @ [peer_closed, peer_closed]"
            and len: "length env'' \<le> length env1"
            by blast
          from len Cons have "length env'' < length env" by simp
          from less [OF this, of ?buf2 w2] step False e2 show ?thesis by simp
        qed
      qed
    qed
  qed
qed

lemma count_list_loop_event:
  "list_all loop_event body \<Longrightarrow> \<not> loop_event ev \<Longrightarrow> count_list body ev = 0"
  by (induction body) auto

text \<open>
  C3. Whenever \<^verbatim>\<open>client_thread\<close> returns, by whichever exit of its loop (the last
  event of the loop is the zero-byte \<^verbatim>\<open>recv\<close>, the report of a failed \<^verbatim>\<open>recv\<close> or the
  report of a failed \<^verbatim>\<open>send_all\<close>), what it did ends with \<^verbatim>\<open>close(fd)\<close> followed by the
  decrement of the counter under the mutex; the loop before it holds no \<^verbatim>\<open>close\<close> and no
  decrement, so each happens exactly once, and the counter is back at the value it
  had before the thread. And the thread does return: whatever the responses, it
  returns once the peer has shut down.
\<close>

theorem client_thread_finalizes:
  "client_thread fd buf0 (env @ [peer_closed, peer_closed]) w \<noteq> None
   \<and> (client_thread fd buf0 env w = Some (w', env') \<longrightarrow>
        (\<exists>body. trace w' = trace w
                    @ [Free_ctx, Mtx_lock, Clients_incr, Mtx_unlock,
                       Stderr_clients (g_connected_clients w + 1)]
                    @ body
                    @ [Close fd, Mtx_lock, Clients_decr, Mtx_unlock,
                       Stderr_clients (g_connected_clients w)]
           \<and> body \<noteq> [] \<and> list_all loop_event body \<and> loop_exit fd (last body)
           \<and> count_list body (Close fd) = 0 \<and> count_list body Clients_decr = 0)
        \<and> g_connected_clients w' = g_connected_clients w)"
proof -
  have total: "client_thread fd buf0 (env @ [peer_closed, peer_closed]) w \<noteq> None"
    using handler_loop_closing [of fd buf0 env "inc_clients (emit [Free_ctx] w)"]
    by (auto simp add: client_thread_def split: option.splits)
  have fin: "(\<exists>body. trace w' = trace w
                    @ [Free_ctx, Mtx_lock, Clients_incr, Mtx_unlock,
                       Stderr_clients (g_connected_clients w + 1)]
                    @ body
                    @ [Close fd, Mtx_lock, Clients_decr, Mtx_unlock,
                       Stderr_clients (g_connected_clients w)]
           \<and> body \<noteq> [] \<and> list_all loop_event body \<and> loop_exit fd (last body)
           \<and> count_list body (Close fd) = 0 \<and> count_list body Clients_decr = 0)
        \<and> g_connected_clients w' = g_connected_clients w"
    if ct: "client_thread fd buf0 env w = Some (w', env')"
  proof -
    let ?w1 = "inc_clients (emit [Free_ctx] w)"
    from ct obtain wl where hl: "handler_loop fd buf0 env ?w1 = Some (wl, env')"
      and w': "w' = dec_clients (emit [Close fd] wl)"
      by (auto simp add: client_thread_def split: option.splits)
    from handler_loop_trace [OF hl] obtain body where
      b: "wl = emit body ?w1" "body \<noteq> []" "list_all loop_event body" "loop_exit fd (last body)"
      by blast
    have tr: "trace w' = trace w
                    @ [Free_ctx, Mtx_lock, Clients_incr, Mtx_unlock,
                       Stderr_clients (g_connected_clients w + 1)]
                    @ body
                    @ [Close fd, Mtx_lock, Clients_decr, Mtx_unlock,
                       Stderr_clients (g_connected_clients w)]"
      unfolding w' b(1) by (simp add: inc_clients_def dec_clients_def Let_def)
    have g: "g_connected_clients w' = g_connected_clients w"
      unfolding w' b(1) by (simp add: inc_clients_def dec_clients_def Let_def)
    have c: "count_list body (Close fd) = 0" "count_list body Clients_decr = 0"
      using b(3) by (simp_all add: count_list_loop_event)
    from tr g b c show ?thesis by blast
  qed
  from total fin show ?thesis by blast
qed

text \<open>The write-failure exit: five bytes read, the \<^verbatim>\<open>send\<close> fails with \<^verbatim>\<open>EPIPE\<close>.\<close>

theorem client_thread_finalizes_witness:
  "client_thread 7 (replicate 4096 0)
       [Sysret 5 0 [0x68, 0x65, 0x6C, 0x6C, 0x6F], Sysret (- 1) 32 []]
       \<lparr>g_connected_clients = 0, trace = []\<rparr>
     = Some (\<lparr>g_connected_clients = 0,
               trace = [Free_ctx, Mtx_lock, Clients_incr, Mtx_unlock, Stderr_clients 1,
                        Recv 7 4096 5, Send 7 [0x48, 0x45, 0x4C, 0x4C, 0x4F] (- 1),
                        Perror ''[server] send'',
                        Close 7, Mtx_lock, Clients_decr, Mtx_unlock, Stderr_clients 0]\<rparr>, [])
   \<and> (\<exists>body. [Free_ctx, Mtx_lock, Clients_incr, Mtx_unlock, Stderr_clients 1,
               Recv 7 4096 5, Send 7 [0x48, 0x45, 0x4C, 0x4C, 0x4F] (- 1),
               Perror ''[server] send'',
               Close 7, Mtx_lock, Clients_decr, Mtx_unlock, Stderr_clients 0]
             = [Free_ctx, Mtx_lock, Clients_incr, Mtx_unlock, Stderr_clients 1]
               @ body
               @ [Close 7, Mtx_lock, Clients_decr, Mtx_unlock, Stderr_clients 0]
           \<and> loop_exit 7 (last body))"
proof -
  have h: "client_thread 7 (replicate 4096 0)
       [Sysret 5 0 [0x68, 0x65, 0x6C, 0x6C, 0x6F], Sysret (- 1) 32 []]
       \<lparr>g_connected_clients = 0, trace = []\<rparr>
     = Some (\<lparr>g_connected_clients = 0,
               trace = [Free_ctx, Mtx_lock, Clients_incr, Mtx_unlock, Stderr_clients 1,
                        Recv 7 4096 5, Send 7 [0x48, 0x45, 0x4C, 0x4C, 0x4F] (- 1),
                        Perror ''[server] send'',
                        Close 7, Mtx_lock, Clients_decr, Mtx_unlock, Stderr_clients 0]\<rparr>, [])"
    by (simp add: client_thread_def inc_clients_def dec_clients_def emit_def Let_def
          send_all_def to_uppercase_def toupper_byte_def toupper_def BUF_SIZE_def EINTR_def)
  from client_thread_finalizes [THEN conjunct2, rule_format, OF h] h
  show ?thesis by simp
qed

text \<open>
  C8. At any iteration of the loop (any buffer, any state), a \<^verbatim>\<open>recv\<close> that returns 0
  ends the loop at once: the only event is that \<^verbatim>\<open>recv\<close>, with no \<^verbatim>\<open>send\<close> and no
  \<^verbatim>\<open>perror\<close>. For the thread whose first \<^verbatim>\<open>recv\<close> returns 0, the whole run is: count in,
  the \<^verbatim>\<open>recv\<close>, \<^verbatim>\<open>close\<close>, count out; the counter is back at its prior value, which
  is the value reported last.
\<close>

theorem zero_read_exits:
  assumes "ret e = 0"
  shows "handler_loop fd buf (e # env) w = Some (emit [Recv fd BUF_SIZE 0] w, env)
       \<and> client_thread fd buf0 (e # env) w
           = Some (w\<lparr>trace := trace w
                       @ [Free_ctx, Mtx_lock, Clients_incr, Mtx_unlock,
                          Stderr_clients (g_connected_clients w + 1),
                          Recv fd BUF_SIZE 0,
                          Close fd, Mtx_lock, Clients_decr, Mtx_unlock,
                          Stderr_clients (g_connected_clients w)]\<rparr>, env)"
  using assms
  by (simp add: client_thread_def inc_clients_def dec_clients_def emit_def Let_def)

theorem zero_read_exits_witness:
  "ret (Sysret 0 0 []) = 0
   \<and> handler_loop 7 (replicate 4096 0) (Sysret 0 0 [] # []) \<lparr>g_connected_clients = 3, trace = []\<rparr>
       = Some (\<lparr>g_connected_clients = 3, trace = [Recv 7 4096 0]\<rparr>, [])
   \<and> client_thread 7 (replicate 4096 0) (Sysret 0 0 [] # [])
         \<lparr>g_connected_clients = 3, trace = []\<rparr>
       = Some (\<lparr>g_connected_clients = 3,
                 trace = [Free_ctx, Mtx_lock, Clients_incr, Mtx_unlock, Stderr_clients 4,
                          Recv 7 4096 0,
                          Close 7, Mtx_lock, Clients_decr, Mtx_unlock, Stderr_clients 3]\<rparr>, [])"
proof -
  have h: "ret (Sysret 0 0 []) = 0" by simp
  from zero_read_exits [OF h, of 7 "replicate 4096 0" "[]"
      "\<lparr>g_connected_clients = 3, trace = []\<rparr>" "replicate 4096 0"]
  show ?thesis by (simp add: emit_def BUF_SIZE_def)
qed

section \<open>Properties of the shared counter\<close>

lemma connected_update:
  "t < length ths \<Longrightarrow>
   connected (ths[t := th]) + (if counted (pc (ths ! t)) then 1 else 0)
     = connected ths + (if counted (pc th) then 1 else 0)"
proof (induction ths arbitrary: t)
  case Nil
  then show ?case by simp
next
  case (Cons x ths)
  show ?case
  proof (cases t)
    case 0
    then show ?thesis by (simp add: connected_def)
  next
    case (Suc k)
    with Cons.prems have "k < length ths" by simp
    from Cons.IH [OF this] Suc show ?thesis by (simp add: connected_def)
  qed
qed

lemma connected_same:
  "t < length ths \<Longrightarrow> counted (pc th) = counted (pc (ths ! t))
   \<Longrightarrow> connected (ths[t := th]) = connected ths"
  using connected_update [of t ths th] by (simp split: if_splits)

lemma connected_enter:
  "t < length ths \<Longrightarrow> \<not> counted (pc (ths ! t)) \<Longrightarrow> counted (pc th)
   \<Longrightarrow> connected (ths[t := th]) = connected ths + 1"
  using connected_update [of t ths th] by simp

lemma connected_leave:
  "t < length ths \<Longrightarrow> counted (pc (ths ! t)) \<Longrightarrow> \<not> counted (pc th)
   \<Longrightarrow> connected ths = connected (ths[t := th]) + 1"
  using connected_update [of t ths th] by simp

lemma connected_le: "connected ths \<le> length ths"
  by (simp add: connected_def)

lemma values_of_snoc:
  "values_of t (log @ [(u, v)]) = values_of t log @ (if u = t then [v] else [])"
  by (simp add: values_of_def)

lemma values_of_outside:
  "\<forall>e \<in> set log. fst e \<noteq> t \<Longrightarrow> values_of t log = []"
  by (induction log) (auto simp add: values_of_def)

lemma serial_snoc:
  "serial c (vs @ [v])
     = (serial c vs \<and> (v = last (c # vs) + 1 \<or> v = last (c # vs) - 1))"
  by (induction vs arbitrary: c) auto

lemma length_threads_step [simp]: "length (threads (step t s)) = length (threads s)"
  by (simp add: step_def set_thread_def Let_def split: pc.splits)

lemma connections_step [simp]: "connections (step t s) = connections s"
  by (simp add: step_def set_thread_def Let_def split: pc.splits)

lemma inv_mutex_step:
  assumes "inv_mutex s"
  shows "inv_mutex (step t s)"
proof (cases "t < length (threads s)")
  case False
  with assms show ?thesis by (simp add: step_def)
next
  case True
  show ?thesis
  proof (cases "pc (threads s ! t)")
    case Inc_lock
    with True assms show ?thesis
      by (auto simp add: step_def inv_mutex_def set_thread_def Let_def nth_list_update)
  qed (insert True assms, auto simp add: step_def inv_mutex_def set_thread_def Let_def nth_list_update)
qed

lemma mutex_excl:
  assumes "inv_mutex s" and "t < length (threads s)" and "holds_mtx (pc (threads s ! t))"
    and "u < length (threads s)" and "u \<noteq> t"
  shows "\<not> holds_mtx (pc (threads s ! u))"
  using assms by (auto simp add: inv_mutex_def)

lemma inv_tmp_step:
  assumes "inv_mutex s" and "inv_tmp s"
  shows "inv_tmp (step t s)"
proof (cases "t < length (threads s)")
  case False
  with assms show ?thesis by (simp add: step_def)
next
  case True
  show ?thesis
  proof (cases "pc (threads s ! t)")
    case Inc_store
    then have h: "holds_mtx (pc (threads s ! t))" by simp
    have excl: "pc (threads s ! u) \<noteq> Inc_store \<and> pc (threads s ! u) \<noteq> Dec_store"
      if "u < length (threads s)" and "u \<noteq> t" for u
    proof -
      from mutex_excl [OF assms(1) True h that]
      have "\<not> holds_mtx (pc (threads s ! u))" .
      then show ?thesis by auto
    qed
    with True Inc_store show ?thesis
      by (auto simp add: step_def inv_tmp_def set_thread_def Let_def nth_list_update)
  next
    case Dec_store
    then have h: "holds_mtx (pc (threads s ! t))" by simp
    have excl: "pc (threads s ! u) \<noteq> Inc_store \<and> pc (threads s ! u) \<noteq> Dec_store"
      if "u < length (threads s)" and "u \<noteq> t" for u
    proof -
      from mutex_excl [OF assms(1) True h that]
      have "\<not> holds_mtx (pc (threads s ! u))" .
      then show ?thesis by auto
    qed
    with True Dec_store show ?thesis
      by (auto simp add: step_def inv_tmp_def set_thread_def Let_def nth_list_update)
  qed (insert True assms(2),
       auto simp add: step_def inv_tmp_def set_thread_def Let_def nth_list_update)
qed

lemma inv_count_step:
  assumes "inv_tmp s" and "inv_count c0 s"
  shows "inv_count c0 (step t s)"
proof (cases "t < length (threads s)")
  case False
  with assms show ?thesis by (simp add: step_def)
next
  case True
  show ?thesis
  proof (cases "pc (threads s ! t)")
    case Inc_store
    with True assms(1) have "tmp (threads s ! t) = clients s" by (simp add: inv_tmp_def)
    with True Inc_store assms(2) show ?thesis
      by (simp add: step_def inv_count_def set_thread_def connected_enter)
  next
    case Dec_store
    with True assms(1) have "tmp (threads s ! t) = clients s" by (simp add: inv_tmp_def)
    moreover from True Dec_store
    have "connected (threads s)
        = connected ((threads s)[t := (threads s ! t)\<lparr>pc := Dec_now\<rparr>]) + 1"
      by (intro connected_leave) simp_all
    ultimately show ?thesis using True Dec_store assms(2)
      by (simp add: step_def inv_count_def set_thread_def Let_def)
  qed (insert True assms(2),
       simp_all add: step_def inv_count_def set_thread_def Let_def connected_same)
qed

lemma inv_log_step:
  assumes "inv_mutex s" and "inv_log s"
  shows "inv_log (step t s)"
proof (cases "t < length (threads s)")
  case False
  with assms show ?thesis by (simp add: step_def)
next
  case True
  have excl: "pc (threads s ! u) \<noteq> Inc_now \<and> pc (threads s ! u) \<noteq> Dec_now"
    if "holds_mtx (pc (threads s ! t))" and "u < length (threads s)" and "u \<noteq> t" for u
  proof -
    from mutex_excl [OF assms(1) True that]
    have "\<not> holds_mtx (pc (threads s ! u))" .
    then show ?thesis by auto
  qed
  show ?thesis
  proof (cases "pc (threads s ! t)")
    case Inc_store
    with excl have "pc (threads s ! u) \<noteq> Inc_now \<and> pc (threads s ! u) \<noteq> Dec_now"
      if "u < length (threads s)" and "u \<noteq> t" for u
      using that by simp
    with True Inc_store assms(2) show ?thesis
      by (auto simp add: step_def inv_log_def set_thread_def Let_def nth_list_update
            values_of_snoc pending_def)
  next
    case Dec_store
    with excl have "pc (threads s ! u) \<noteq> Inc_now \<and> pc (threads s ! u) \<noteq> Dec_now"
      if "u < length (threads s)" and "u \<noteq> t" for u
      using that by simp
    with True Dec_store assms(2) show ?thesis
      by (auto simp add: step_def inv_log_def set_thread_def Let_def nth_list_update
            values_of_snoc pending_def)
  qed (insert True assms(2),
       auto simp add: step_def inv_log_def set_thread_def Let_def nth_list_update
         values_of_snoc pending_def)
qed

lemma inv_serial_step:
  assumes "inv_tmp s" and "inv_serial c0 s"
  shows "inv_serial c0 (step t s)"
proof (cases "t < length (threads s)")
  case False
  with assms show ?thesis by (simp add: step_def)
next
  case True
  show ?thesis
    by (cases "pc (threads s ! t)")
       (insert True assms,
        auto simp add: step_def inv_serial_def inv_tmp_def set_thread_def Let_def serial_snoc)
qed

lemma writes_step:
  "writes (step t s) = writes s \<or> writes (step t s) = writes s @ [(t, clients (step t s))]"
  by (simp add: step_def set_thread_def Let_def split: pc.splits)

lemma inv_range_step:
  assumes "inv_count 0 (step t s)" and "inv_range s"
  shows "inv_range (step t s)"
proof -
  have "unat (clients (step t s)) \<le> length (threads s)"
  proof -
    have "unat (clients (step t s)) \<le> connected (threads (step t s))"
      using assms(1) by (simp add: inv_count_def unat_of_nat)
    also have "\<dots> \<le> length (threads (step t s))" by (rule connected_le)
    finally show ?thesis by simp
  qed
  with writes_step [of t s] assms(2) show ?thesis
    by (auto simp add: inv_range_def)
qed

lemma connected_snoc_new [simp]:
  "connected (ths @ [\<lparr>pc = Inc_lock, tmp = a, now = b\<rparr>]) = connected ths"
  by (simp add: connected_def)

lemma inv_spawn:
  assumes "inv c0 s"
  shows "inv c0 (s\<lparr>connections := connections s + 1,
                    threads := threads s @ [\<lparr>pc = Inc_lock, tmp = 0, now = 0\<rparr>]\<rparr>)"
proof -
  let ?s' = "s\<lparr>connections := connections s + 1,
                threads := threads s @ [\<lparr>pc = Inc_lock, tmp = 0, now = 0\<rparr>]\<rparr>"
  from assms have m: "inv_mutex s" and t: "inv_tmp s" and c: "inv_count c0 s"
    and l: "inv_log s" and r: "inv_serial c0 s"
    by (simp_all add: inv_def)
  have "inv_mutex ?s'"
    using m by (auto simp add: inv_mutex_def nth_append less_Suc_eq)
  moreover have "inv_tmp ?s'"
    using t by (auto simp add: inv_tmp_def nth_append less_Suc_eq)
  moreover have "inv_count c0 ?s'"
    using c by (simp add: inv_count_def)
  moreover have "inv_log ?s'"
  proof -
    from l have "\<forall>e \<in> set (writes s) \<union> set (stderr s). fst e < length (threads s)"
      by (simp add: inv_log_def)
    then have "\<forall>e \<in> set (writes s). fst e \<noteq> length (threads s)"
      and "\<forall>e \<in> set (stderr s). fst e \<noteq> length (threads s)"
      by (simp_all add: ball_Un) fastforce+
    then have "values_of (length (threads s)) (writes s) = []"
      and "values_of (length (threads s)) (stderr s) = []"
      by (simp_all add: values_of_outside)
    with l show ?thesis
      by (auto simp add: inv_log_def nth_append less_Suc_eq pending_def)
  qed
  moreover have "inv_serial c0 ?s'"
    using r by (simp add: inv_serial_def)
  ultimately show ?thesis by (simp add: inv_def)
qed

lemma inv_break:
  assumes "inv c0 s" and "t < length (threads s)" and "pc (threads s ! t) = Loop"
  shows "inv c0 (set_thread t ((threads s ! t)\<lparr>pc := Close_fd\<rparr>) s)"
proof -
  let ?s' = "set_thread t ((threads s ! t)\<lparr>pc := Close_fd\<rparr>) s"
  from assms(1) have m: "inv_mutex s" and t: "inv_tmp s" and c: "inv_count c0 s"
    and l: "inv_log s" and r: "inv_serial c0 s"
    by (simp_all add: inv_def)
  have "inv_mutex ?s'"
    using m assms(2,3) by (auto simp add: inv_mutex_def set_thread_def nth_list_update)
  moreover have "inv_tmp ?s'"
    using t assms(2,3) by (auto simp add: inv_tmp_def set_thread_def nth_list_update)
  moreover have "inv_count c0 ?s'"
    using c assms(2,3) by (simp add: inv_count_def set_thread_def connected_same)
  moreover have "inv_log ?s'"
    using l assms(2,3)
    by (auto simp add: inv_log_def set_thread_def nth_list_update pending_def)
  moreover have "inv_serial c0 ?s'"
    using r by (simp add: inv_serial_def set_thread_def)
  ultimately show ?thesis by (simp add: inv_def)
qed

lemma inv_exec:
  assumes "inv c0 s"
  shows "inv c0 (exec a s)"
proof (cases a)
  case Accept_failed
  with assms show ?thesis by (simp add: exec_def)
next
  case Thread_failed
  have "inv c0 (s\<lparr>connections := connections s + 1\<rparr>) = inv c0 s"
    by (simp add: inv_def inv_mutex_def inv_tmp_def inv_count_def inv_log_def inv_serial_def)
  with Thread_failed assms show ?thesis by (simp add: exec_def)
next
  case Spawn
  with inv_spawn [OF assms] show ?thesis by (simp add: exec_def)
next
  case (Step t)
  from assms have "inv c0 (step t s)"
    by (simp add: inv_def inv_mutex_step inv_tmp_step inv_count_step inv_log_step
          inv_serial_step)
  with Step show ?thesis by (simp add: exec_def)
next
  case (Break t)
  with inv_break [OF assms] assms show ?thesis by (simp add: exec_def)
qed

lemma inv_run: "inv c0 s \<Longrightarrow> inv c0 (run sched s)"
  by (induction sched arbitrary: s) (simp_all add: inv_exec)

lemma inv_init: "inv c0 (init c0)"
  by (simp add: inv_def init_def inv_mutex_def inv_tmp_def inv_count_def inv_log_def
        inv_serial_def connected_def)

lemma inv_range_exec:
  assumes "inv 0 s" and "inv_range s"
  shows "inv_range (exec a s)"
proof (cases a)
  case (Step t)
  from inv_exec [OF assms(1), of "Step t"] have "inv_count 0 (step t s)"
    by (simp add: exec_def inv_def)
  from inv_range_step [OF this assms(2)] Step show ?thesis by (simp add: exec_def)
next
  case Spawn
  with assms(2) show ?thesis by (auto simp add: exec_def inv_range_def)
next
  case (Break t)
  with assms(2) show ?thesis by (auto simp add: exec_def inv_range_def set_thread_def)
qed (insert assms(2), auto simp add: exec_def inv_range_def)

lemma inv_range_run: "inv 0 s \<Longrightarrow> inv_range s \<Longrightarrow> inv_range (run sched s)"
  by (induction sched arbitrary: s) (simp_all add: inv_exec inv_range_exec)

lemma inv_range_init: "inv_range (init c0)"
  by (simp add: inv_range_def init_def)

lemma sint_of_nat_small:
  assumes "n < 2 ^ 31"
  shows "sint (of_nat n :: c_int) = int n"
proof -
  have "int n < 2 ^ 31" using assms by (simp add: of_nat_less_iff [of n "2 ^ 31", simplified])
  then have "signed_take_bit 31 (int n) = int n"
    by (intro signed_take_bit_int_eq_self) simp_all
  then show ?thesis by (simp add: signed_of_nat)
qed

lemma sint_unat_small:
  assumes "unat (v :: c_int) < 2 ^ 31"
  shows "sint v = int (unat v)"
  using sint_of_nat_small [OF assms] by simp

lemma connected_all_finished:
  "\<forall>th \<in> set ths. pc th = Finished \<Longrightarrow> connected ths = 0"
  by (induction ths) (simp_all add: connected_def)

text \<open>
  C1. In every state the interleaving can reach (with fewer than \<open>2^31\<close> threads, the
  range of the C \<^verbatim>\<open>int\<close>), the counter equals the number of threads that have done the
  increment of \<^verbatim>\<open>inc_clients\<close> and not yet the decrement of \<^verbatim>\<open>dec_clients\<close>; it is not
  negative and not above the number of accepted connections; and when every thread
  has finished it is 0 again.
\<close>

theorem counter_invariant:
  assumes "s = run sched (init 0)" and "length (threads s) < 2 ^ 31"
  shows "sint (clients s) = int (connected (threads s))
       \<and> 0 \<le> sint (clients s)
       \<and> sint (clients s) \<le> int (connections s)
       \<and> ((\<forall>th \<in> set (threads s). pc th = Finished) \<longrightarrow> clients s = 0)"
proof -
  from assms(1) have i: "inv 0 s" and r: "inv_range s"
    by (simp_all add: inv_run inv_init inv_range_run inv_range_init)
  from i have c: "clients s = of_nat (connected (threads s))"
    by (simp add: inv_def inv_count_def)
  have le: "connected (threads s) \<le> length (threads s)" by (rule connected_le)
  with assms(2) have "connected (threads s) < 2 ^ 31" by simp
  then have eq: "sint (clients s) = int (connected (threads s))"
    unfolding c by (rule sint_of_nat_small)
  from r have "length (threads s) \<le> connections s" by (simp add: inv_range_def)
  with le eq have "sint (clients s) \<le> int (connections s)" by simp
  moreover have "clients s = 0" if "\<forall>th \<in> set (threads s). pc th = Finished"
    using c connected_all_finished [OF that] by simp
  ultimately show ?thesis using eq by simp
qed

text \<open>
  Two connections, the first thread past its increment, the second waiting for the
  mutex; and one connection served to its end.
\<close>

theorem counter_invariant_witness:
  "run [Spawn, Spawn, Step 0, Step 0, Step 0, Step 1] (init 0)
     = \<lparr>clients = 1, mtx = Some 0,
        threads = [\<lparr>pc = Inc_now, tmp = 0, now = 0\<rparr>, \<lparr>pc = Inc_lock, tmp = 0, now = 0\<rparr>],
        writes = [(0, 1)], stderr = [], connections = 2\<rparr>
   \<and> length (threads (run [Spawn, Spawn, Step 0, Step 0, Step 0, Step 1] (init 0))) < 2 ^ 31
   \<and> sint (clients (run [Spawn, Spawn, Step 0, Step 0, Step 0, Step 1] (init 0))) = 1
   \<and> connected (threads (run [Spawn, Spawn, Step 0, Step 0, Step 0, Step 1] (init 0))) = 1
   \<and> run [Spawn, Step 0, Step 0, Step 0, Step 0, Step 0, Step 0, Break 0,
          Step 0, Step 0, Step 0, Step 0, Step 0, Step 0, Step 0] (init 0)
     = \<lparr>clients = 0, mtx = None,
        threads = [\<lparr>pc = Finished, tmp = 1, now = 0\<rparr>],
        writes = [(0, 1), (0, 0)], stderr = [(0, 1), (0, 0)], connections = 1\<rparr>
   \<and> clients (run [Spawn, Step 0, Step 0, Step 0, Step 0, Step 0, Step 0, Break 0,
          Step 0, Step 0, Step 0, Step 0, Step 0, Step 0, Step 0] (init 0)) = 0"
proof -
  have e1: "run [Spawn, Spawn, Step 0, Step 0, Step 0, Step 1] (init 0)
     = \<lparr>clients = 1, mtx = Some 0,
        threads = [\<lparr>pc = Inc_now, tmp = 0, now = 0\<rparr>, \<lparr>pc = Inc_lock, tmp = 0, now = 0\<rparr>],
        writes = [(0, 1)], stderr = [], connections = 2\<rparr>"
    by (simp add: exec_def step_def set_thread_def init_def Let_def)
  have e2: "run [Spawn, Step 0, Step 0, Step 0, Step 0, Step 0, Step 0, Break 0,
          Step 0, Step 0, Step 0, Step 0, Step 0, Step 0, Step 0] (init 0)
     = \<lparr>clients = 0, mtx = None,
        threads = [\<lparr>pc = Finished, tmp = 1, now = 0\<rparr>],
        writes = [(0, 1), (0, 0)], stderr = [(0, 1), (0, 0)], connections = 1\<rparr>"
    by (simp add: exec_def step_def set_thread_def init_def Let_def)
  have b1: "length (threads (run [Spawn, Spawn, Step 0, Step 0, Step 0, Step 1] (init 0))) < 2 ^ 31"
    unfolding e1 by simp
  have b2: "length (threads (run [Spawn, Step 0, Step 0, Step 0, Step 0, Step 0, Step 0, Break 0,
          Step 0, Step 0, Step 0, Step 0, Step 0, Step 0, Step 0] (init 0))) < 2 ^ 31"
    unfolding e2 by simp
  from counter_invariant [OF refl b1] counter_invariant [OF refl b2]
  show ?thesis unfolding e1 e2 by (simp add: connected_def)
qed

text \<open>
  C6. From any starting value, in every reachable state: at most one thread is
  between lock and unlock; a thread that has loaded the counter and not yet stored
  holds the mutex and its loaded value is still the counter's, so its store is the
  counter plus or minus one; hence the values stored, in order, are those of one
  increment or decrement after the other, the counter being the last of them. The
  counter is its starting value plus the number of threads counted in, and is the
  starting value again when all threads have finished. Starting at 0 with \<open>N\<close> threads
  (\<open>N < 2^31\<close>), every value the counter takes lies in \<open>[0, N]\<close>.
\<close>

theorem no_lost_update:
  assumes "s = run sched (init c0)"
  shows "(\<forall>t < length (threads s). \<forall>u < length (threads s).
            holds_mtx (pc (threads s ! t)) \<and> holds_mtx (pc (threads s ! u)) \<longrightarrow> t = u)
       \<and> (\<forall>t < length (threads s).
            pc (threads s ! t) = Inc_store \<or> pc (threads s ! t) = Dec_store
            \<longrightarrow> mtx s = Some t \<and> tmp (threads s ! t) = clients s)
       \<and> serial c0 (map snd (writes s))
       \<and> clients s = last (c0 # map snd (writes s))
       \<and> clients s = c0 + of_nat (connected (threads s))
       \<and> ((\<forall>th \<in> set (threads s). pc th = Finished) \<longrightarrow> clients s = c0)
       \<and> (c0 = 0 \<and> length (threads s) < 2 ^ 31
            \<longrightarrow> (\<forall>e \<in> set (writes s). 0 \<le> sint (snd e) \<and> sint (snd e) \<le> int (length (threads s))))"
proof -
  from assms have i: "inv c0 s"
    by (simp add: inv_run inv_init)
  then have m: "inv_mutex s" and t: "inv_tmp s" and c: "inv_count c0 s"
    and r: "inv_serial c0 s"
    by (simp_all add: inv_def)
  have excl: "\<forall>t < length (threads s). \<forall>u < length (threads s).
            holds_mtx (pc (threads s ! t)) \<and> holds_mtx (pc (threads s ! u)) \<longrightarrow> t = u"
    using m by (auto simp add: inv_mutex_def)
  have upd: "\<forall>t < length (threads s).
            pc (threads s ! t) = Inc_store \<or> pc (threads s ! t) = Dec_store
            \<longrightarrow> mtx s = Some t \<and> tmp (threads s ! t) = clients s"
  proof (intro allI impI)
    fix t assume t1: "t < length (threads s)"
      and t2: "pc (threads s ! t) = Inc_store \<or> pc (threads s ! t) = Dec_store"
    then have "holds_mtx (pc (threads s ! t))" by auto
    with m t1 have "mtx s = Some t" by (simp add: inv_mutex_def)
    moreover from t t1 t2 have "tmp (threads s ! t) = clients s" by (auto simp add: inv_tmp_def)
    ultimately show "mtx s = Some t \<and> tmp (threads s ! t) = clients s" by simp
  qed
  have fin: "clients s = c0" if "\<forall>th \<in> set (threads s). pc th = Finished"
    using c connected_all_finished [OF that] by (simp add: inv_count_def)
  have rng: "\<forall>e \<in> set (writes s). 0 \<le> sint (snd e) \<and> sint (snd e) \<le> int (length (threads s))"
    if z: "c0 = 0" and n: "length (threads s) < 2 ^ 31"
  proof
    fix e assume e: "e \<in> set (writes s)"
    from assms z have "inv_range s"
      by (simp add: inv_range_run inv_init inv_range_init)
    with e have le: "unat (snd e) \<le> length (threads s)" by (simp add: inv_range_def)
    with n have "unat (snd e) < 2 ^ 31" by simp
    then have "sint (snd e) = int (unat (snd e))" by (rule sint_unat_small)
    moreover from le have "int (unat (snd e)) \<le> int (length (threads s))"
      by (rule of_nat_mono)
    moreover have "0 \<le> int (unat (snd e))" by (rule of_nat_0_le_iff)
    ultimately show "0 \<le> sint (snd e) \<and> sint (snd e) \<le> int (length (threads s))"
      by (simp only:)
  qed
  from excl upd r c fin rng show ?thesis
    by (simp add: inv_serial_def inv_count_def)
qed

text \<open>
  Two threads, the first between its load and its store, the second kept out by the
  mutex; and one connection served to its end.
\<close>

theorem no_lost_update_witness:
  "run [Spawn, Spawn, Step 0, Step 1, Step 0] (init 0)
     = \<lparr>clients = 0, mtx = Some 0,
        threads = [\<lparr>pc = Inc_store, tmp = 0, now = 0\<rparr>, \<lparr>pc = Inc_lock, tmp = 0, now = 0\<rparr>],
        writes = [], stderr = [], connections = 2\<rparr>
   \<and> holds_mtx (pc (threads (run [Spawn, Spawn, Step 0, Step 1, Step 0] (init 0)) ! 0))
   \<and> tmp (threads (run [Spawn, Spawn, Step 0, Step 1, Step 0] (init 0)) ! 0)
       = clients (run [Spawn, Spawn, Step 0, Step 1, Step 0] (init 0))
   \<and> run [Spawn, Step 0, Step 0, Step 0, Step 0, Step 0, Step 0, Break 0,
          Step 0, Step 0, Step 0, Step 0, Step 0, Step 0, Step 0] (init 0)
     = \<lparr>clients = 0, mtx = None,
        threads = [\<lparr>pc = Finished, tmp = 1, now = 0\<rparr>],
        writes = [(0, 1), (0, 0)], stderr = [(0, 1), (0, 0)], connections = 1\<rparr>
   \<and> serial 0 (map snd (writes (run [Spawn, Step 0, Step 0, Step 0, Step 0, Step 0, Step 0, Break 0,
          Step 0, Step 0, Step 0, Step 0, Step 0, Step 0, Step 0] (init 0))))
   \<and> clients (run [Spawn, Step 0, Step 0, Step 0, Step 0, Step 0, Step 0, Break 0,
          Step 0, Step 0, Step 0, Step 0, Step 0, Step 0, Step 0] (init 0)) = 0"
proof -
  have e3: "run [Spawn, Spawn, Step 0, Step 1, Step 0] (init 0)
     = \<lparr>clients = 0, mtx = Some 0,
        threads = [\<lparr>pc = Inc_store, tmp = 0, now = 0\<rparr>, \<lparr>pc = Inc_lock, tmp = 0, now = 0\<rparr>],
        writes = [], stderr = [], connections = 2\<rparr>"
    by (simp add: exec_def step_def set_thread_def init_def Let_def)
  have e2: "run [Spawn, Step 0, Step 0, Step 0, Step 0, Step 0, Step 0, Break 0,
          Step 0, Step 0, Step 0, Step 0, Step 0, Step 0, Step 0] (init 0)
     = \<lparr>clients = 0, mtx = None,
        threads = [\<lparr>pc = Finished, tmp = 1, now = 0\<rparr>],
        writes = [(0, 1), (0, 0)], stderr = [(0, 1), (0, 0)], connections = 1\<rparr>"
    by (simp add: exec_def step_def set_thread_def init_def Let_def)
  from no_lost_update [OF refl, of "[Spawn, Spawn, Step 0, Step 1, Step 0]" 0]
    no_lost_update [OF refl, of "[Spawn, Step 0, Step 0, Step 0, Step 0, Step 0, Step 0, Break 0,
          Step 0, Step 0, Step 0, Step 0, Step 0, Step 0, Step 0]" 0] e3 e2
  show ?thesis by simp
qed

text \<open>
  C7 as the claim states it fails on the code: \<^verbatim>\<open>fprintf\<close> comes after
  \<^verbatim>\<open>pthread_mutex_unlock\<close>. With two threads both can stand before their \<^verbatim>\<open>fprintf\<close>
  with the mutex free; if the second prints first, the lines read 2, 1, which no
  sequence of increments and decrements from 0 produces, while the stores were 1, 2.
\<close>

theorem report_order_counterexample:
  "pc (threads (run [Spawn, Spawn, Step 0, Step 0, Step 0, Step 0, Step 0,
          Step 1, Step 1, Step 1, Step 1, Step 1] (init 0)) ! 1) = Inc_print
   \<and> mtx (run [Spawn, Spawn, Step 0, Step 0, Step 0, Step 0, Step 0,
          Step 1, Step 1, Step 1, Step 1, Step 1] (init 0)) = None
   \<and> map snd (writes (run [Spawn, Spawn, Step 0, Step 0, Step 0, Step 0, Step 0,
          Step 1, Step 1, Step 1, Step 1, Step 1, Step 1, Step 0] (init 0))) = [1, 2]
   \<and> map snd (stderr (run [Spawn, Spawn, Step 0, Step 0, Step 0, Step 0, Step 0,
          Step 1, Step 1, Step 1, Step 1, Step 1, Step 1, Step 0] (init 0))) = [2, 1]
   \<and> \<not> serial 0 (map snd (stderr (run [Spawn, Spawn, Step 0, Step 0, Step 0, Step 0, Step 0,
          Step 1, Step 1, Step 1, Step 1, Step 1, Step 1, Step 0] (init 0))))"
proof -
  have ea: "run [Spawn, Spawn, Step 0, Step 0, Step 0, Step 0, Step 0,
          Step 1, Step 1, Step 1, Step 1, Step 1] (init 0)
     = \<lparr>clients = 2, mtx = None,
        threads = [\<lparr>pc = Inc_print, tmp = 0, now = 1\<rparr>, \<lparr>pc = Inc_print, tmp = 1, now = 2\<rparr>],
        writes = [(0, 1), (1, 2)], stderr = [], connections = 2\<rparr>"
    by (simp add: exec_def step_def set_thread_def init_def Let_def)
  have eb: "run [Spawn, Spawn, Step 0, Step 0, Step 0, Step 0, Step 0,
          Step 1, Step 1, Step 1, Step 1, Step 1, Step 1, Step 0] (init 0)
     = \<lparr>clients = 2, mtx = None,
        threads = [\<lparr>pc = Loop, tmp = 0, now = 1\<rparr>, \<lparr>pc = Loop, tmp = 1, now = 2\<rparr>],
        writes = [(0, 1), (1, 2)], stderr = [(1, 2), (0, 1)], connections = 2\<rparr>"
    by (simp add: exec_def step_def set_thread_def init_def Let_def)
  show ?thesis unfolding ea eb by simp
qed

text \<open>
  C7 as amended. In every reachable state, a thread that is about to copy the
  counter into \<^verbatim>\<open>now\<close> holds the mutex, a thread that is about to print does not, and
  the values a thread has stored are, in order, the values it has printed followed by
  the one it has stored and not yet printed, if any: every line shows the value the
  printing thread's own mutation produced, read under the mutex and printed after
  its release.
\<close>

theorem report_after_unlock:
  assumes "s = run sched (init c0)" and "t < length (threads s)"
  shows "(pc (threads s ! t) = Inc_now \<or> pc (threads s ! t) = Dec_now \<longrightarrow> mtx s = Some t)
       \<and> (pc (threads s ! t) = Inc_print \<or> pc (threads s ! t) = Dec_print \<longrightarrow> mtx s \<noteq> Some t)
       \<and> values_of t (writes s)
           = values_of t (stderr s) @ pending (clients s) (threads s ! t)"
proof -
  from assms(1) have i: "inv c0 s"
    by (simp add: inv_run inv_init)
  then have m: "inv_mutex s" and l: "inv_log s"
    by (simp_all add: inv_def)
  from m assms(2) have h: "holds_mtx (pc (threads s ! t)) = (mtx s = Some t)"
    by (simp add: inv_mutex_def)
  have a: "pc (threads s ! t) = Inc_now \<or> pc (threads s ! t) = Dec_now \<longrightarrow> mtx s = Some t"
    using h by auto
  have b: "pc (threads s ! t) = Inc_print \<or> pc (threads s ! t) = Dec_print \<longrightarrow> mtx s \<noteq> Some t"
    using h by auto
  from l assms(2) have "values_of t (writes s)
           = values_of t (stderr s) @ pending (clients s) (threads s ! t)"
    by (simp add: inv_log_def)
  with a b show ?thesis by simp
qed

text \<open>
  Two threads: the first before its \<^verbatim>\<open>fprintf\<close>, the second between its store and
  \<^verbatim>\<open>now = g_connected_clients\<close>.
\<close>

theorem report_after_unlock_witness:
  "run [Spawn, Spawn, Step 0, Step 0, Step 0, Step 0, Step 0, Step 1, Step 1, Step 1] (init 0)
     = \<lparr>clients = 2, mtx = Some 1,
        threads = [\<lparr>pc = Inc_print, tmp = 0, now = 1\<rparr>, \<lparr>pc = Inc_now, tmp = 1, now = 0\<rparr>],
        writes = [(0, 1), (1, 2)], stderr = [], connections = 2\<rparr>
   \<and> (0::nat) < length (threads (run [Spawn, Spawn, Step 0, Step 0, Step 0, Step 0, Step 0, Step 1, Step 1, Step 1] (init 0)))
   \<and> (1::nat) < length (threads (run [Spawn, Spawn, Step 0, Step 0, Step 0, Step 0, Step 0, Step 1, Step 1, Step 1] (init 0)))
   \<and> mtx (run [Spawn, Spawn, Step 0, Step 0, Step 0, Step 0, Step 0, Step 1, Step 1, Step 1] (init 0)) \<noteq> Some 0
   \<and> mtx (run [Spawn, Spawn, Step 0, Step 0, Step 0, Step 0, Step 0, Step 1, Step 1, Step 1] (init 0)) = Some 1
   \<and> values_of 1 (writes (run [Spawn, Spawn, Step 0, Step 0, Step 0, Step 0, Step 0, Step 1, Step 1, Step 1] (init 0))) = [2]
   \<and> values_of 0 (writes (run [Spawn, Spawn, Step 0, Step 0, Step 0, Step 0, Step 0, Step 1, Step 1, Step 1] (init 0))) = [1]"
proof -
  have e4: "run [Spawn, Spawn, Step 0, Step 0, Step 0, Step 0, Step 0, Step 1, Step 1, Step 1] (init 0)
     = \<lparr>clients = 2, mtx = Some 1,
        threads = [\<lparr>pc = Inc_print, tmp = 0, now = 1\<rparr>, \<lparr>pc = Inc_now, tmp = 1, now = 0\<rparr>],
        writes = [(0, 1), (1, 2)], stderr = [], connections = 2\<rparr>"
    by (simp add: exec_def step_def set_thread_def init_def Let_def)
  have l0: "(0::nat) < length (threads (run [Spawn, Spawn, Step 0, Step 0, Step 0, Step 0, Step 0, Step 1, Step 1, Step 1] (init 0)))"
    unfolding e4 by simp
  have l1: "(1::nat) < length (threads (run [Spawn, Spawn, Step 0, Step 0, Step 0, Step 0, Step 0, Step 1, Step 1, Step 1] (init 0)))"
    unfolding e4 by simp
  from report_after_unlock [OF refl l0] report_after_unlock [OF refl l1]
  show ?thesis unfolding e4 by (simp add: values_of_def pending_def)
qed

section \<open>Properties of main\<close>

lemma uint_port:
  assumes "1 \<le> p" and "p \<le> 65535"
  shows "uint (word_of_int p :: 16 word) = p"
proof -
  have "take_bit 16 p = p"
    using assms by (simp add: take_bit_int_eq_self)
  then show ?thesis by (simp add: uint_word_of_int_eq)
qed

text \<open>
  C9. When a port argument is given and \<^verbatim>\<open>atoi\<close> of it is outside 1..65535, \<^verbatim>\<open>main\<close> prints
  the usage line and returns \<^verbatim>\<open>EXIT_FAILURE\<close> (not 0) without having called \<^verbatim>\<open>socket\<close>.
  When the value is in range, \<^verbatim>\<open>main\<close> goes on to \<^verbatim>\<open>socket\<close>; the port it binds and the
  port it reports are that value, and with every call succeeding it reaches the
  accept loop.
\<close>

theorem port_argument_checked:
  assumes "2 \<le> length argv"
  shows "(atoi (argv ! 1) < 1 \<or> 65535 < atoi (argv ! 1) \<longrightarrow>
            main_startup atoi argv k
              = ([Signal_SIGPIPE_SIG_IGN, Usage (argv ! 0)], Exit EXIT_FAILURE)
            \<and> EXIT_FAILURE \<noteq> 0)
       \<and> (1 \<le> atoi (argv ! 1) \<and> atoi (argv ! 1) \<le> 65535 \<longrightarrow>
            (\<exists>evs r. main_startup atoi argv k
                        = (Signal_SIGPIPE_SIG_IGN # Socket # evs, r)
               \<and> (\<forall>fd p. Bind fd p \<in> set evs \<longrightarrow> uint p = atoi (argv ! 1))
               \<and> (\<forall>q. Stderr_listening q \<in> set evs \<longrightarrow> q = atoi (argv ! 1))
               \<and> (0 \<le> socket_ret k \<and> 0 \<le> setsockopt_ret k \<and> 0 \<le> bind_ret k
                    \<and> 0 \<le> listen_ret k
                  \<longrightarrow> r = Accept_loop (socket_ret k)
                      \<and> Bind (socket_ret k) (word_of_int (atoi (argv ! 1))) \<in> set evs
                      \<and> Stderr_listening (atoi (argv ! 1)) \<in> set evs)))"
proof -
  have bad: "main_startup atoi argv k
              = ([Signal_SIGPIPE_SIG_IGN, Usage (argv ! 0)], Exit EXIT_FAILURE)
            \<and> EXIT_FAILURE \<noteq> 0"
    if "atoi (argv ! 1) < 1 \<or> 65535 < atoi (argv ! 1)"
    using that assms by (auto simp add: main_startup_def Let_def EXIT_FAILURE_def)
  have good: "\<exists>evs r. main_startup atoi argv k
                        = (Signal_SIGPIPE_SIG_IGN # Socket # evs, r)
               \<and> (\<forall>fd p. Bind fd p \<in> set evs \<longrightarrow> uint p = atoi (argv ! 1))
               \<and> (\<forall>q. Stderr_listening q \<in> set evs \<longrightarrow> q = atoi (argv ! 1))
               \<and> (0 \<le> socket_ret k \<and> 0 \<le> setsockopt_ret k \<and> 0 \<le> bind_ret k
                    \<and> 0 \<le> listen_ret k
                  \<longrightarrow> r = Accept_loop (socket_ret k)
                      \<and> Bind (socket_ret k) (word_of_int (atoi (argv ! 1))) \<in> set evs
                      \<and> Stderr_listening (atoi (argv ! 1)) \<in> set evs)"
    if "1 \<le> atoi (argv ! 1) \<and> atoi (argv ! 1) \<le> 65535"
  proof -
    from that have u: "uint (word_of_int (atoi (argv ! 1)) :: 16 word) = atoi (argv ! 1)"
      by (simp add: uint_port)
    from that assms u show ?thesis
      by (auto simp add: main_startup_def Let_def)
  qed
  from bad good show ?thesis by blast
qed

theorem port_argument_checked_witness:
  "(2::nat) \<le> length [''./server'', ''0'']
   \<and> main_startup (\<lambda>a. if a = ''8080'' then 8080 else 0) [''./server'', ''0'']
         \<lparr>socket_ret = 3, setsockopt_ret = 0, bind_ret = 0, listen_ret = 0\<rparr>
       = ([Signal_SIGPIPE_SIG_IGN, Usage ''./server''], Exit EXIT_FAILURE)
   \<and> (2::nat) \<le> length [''./server'', ''8080'']
   \<and> main_startup (\<lambda>a. if a = ''8080'' then 8080 else 0) [''./server'', ''8080'']
         \<lparr>socket_ret = 3, setsockopt_ret = 0, bind_ret = 0, listen_ret = 0\<rparr>
       = ([Signal_SIGPIPE_SIG_IGN, Socket, Setsockopt_SO_REUSEADDR 3, Bind 3 8080,
           Listen 3 64, Stderr_listening 8080], Accept_loop 3)"
proof -
  have h1: "(2::nat) \<le> length [''./server'', ''0'']" by simp
  have h2: "(2::nat) \<le> length [''./server'', ''8080'']" by simp
  from port_argument_checked [OF h1, of "\<lambda>a. if a = ''8080'' then 8080 else 0"
      "\<lparr>socket_ret = 3, setsockopt_ret = 0, bind_ret = 0, listen_ret = 0\<rparr>"]
    port_argument_checked [OF h2, of "\<lambda>a. if a = ''8080'' then 8080 else 0"
      "\<lparr>socket_ret = 3, setsockopt_ret = 0, bind_ret = 0, listen_ret = 0\<rparr>"]
  show ?thesis by (simp add: main_startup_def Let_def BACKLOG_def)
qed

end
